theory Spec2Isabelle
  imports Main "HOL-Library.Word"
begin

unbundle bit_operations_syntax

section \<open>JasonParser: data model\<close>

text \<open>
  The embedding follows \<^verbatim>\<open>JasonParser.h\<close>. Bytes are 8-bit words, the value returned
  by \<^verbatim>\<open>peek\<close>/\<^verbatim>\<open>consume\<close> is a C \<^verbatim>\<open>int\<close> (\<open>-1\<close> at the end of input),
  \<^verbatim>\<open>uint64_t\<close> is a 64-bit word, \<^verbatim>\<open>size_t\<close> positions are natural numbers.

  A thrown \<^verbatim>\<open>JasonParserError(msg)\<close> is the value \<open>Inl (JasonParserError msg, p)\<close>,
  where \<open>p\<close> is the parser object as the throw leaves it (\<^verbatim>\<open>errorPos\<close> reads it
  afterwards). \<^verbatim>\<open>unconsume\<close> decrements \<^verbatim>\<open>_pos\<close> without a check; at \<^verbatim>\<open>_pos == 0\<close> the source
  would wrap the unsigned position around. The model makes that event observable as
  the error \<open>CursorUnderflow\<close>. The value parser is recursive and is given fuel; running
  out of it is the error \<open>FuelExhausted\<close>.
\<close>

type_synonym byte = "8 word"

datatype error = JasonParserError string | CursorUnderflow | FuelExhausted

definition bytes_of :: "string \<Rightarrow> byte list" where
  "bytes_of s = map of_char s"

subsection \<open>Doubles\<close>

text \<open>
  IEEE doubles are not interpreted: the arithmetic the parser uses is a parameter, a
  record of operations on an arbitrary type \<open>'d\<close>. \<open>fromU64\<close> is
  \<^verbatim>\<open>static_cast<double>\<close> of a \<^verbatim>\<open>uint64_t\<close>, \<open>fromInt\<close> the conversion of an
  \<^verbatim>\<open>int\<close> (and the literals \<^verbatim>\<open>0.0\<close> and \<^verbatim>\<open>10.0\<close>), \<open>point1\<close> the literal
  \<^verbatim>\<open>0.1\<close>, \<open>fpow\<close> is \<^verbatim>\<open>pow\<close>.
\<close>

record 'd fpu =
  fromU64 :: "64 word \<Rightarrow> 'd"
  fromInt :: "int \<Rightarrow> 'd"
  point1 :: "'d"
  fadd :: "'d \<Rightarrow> 'd \<Rightarrow> 'd"
  fsub :: "'d \<Rightarrow> 'd \<Rightarrow> 'd"
  fmul :: "'d \<Rightarrow> 'd \<Rightarrow> 'd"
  fdiv :: "'d \<Rightarrow> 'd \<Rightarrow> 'd"
  fneg :: "'d \<Rightarrow> 'd"
  fpow :: "'d \<Rightarrow> 'd \<Rightarrow> 'd"
  isnan :: "'d \<Rightarrow> bool"
  isfinite :: "'d \<Rightarrow> bool"

subsection \<open>ParsedNumber\<close>

record 'd ParsedNumber =
  intValue :: "64 word"
  doubleValue :: "'d"
  isInteger :: bool

definition newParsedNumber :: "'d fpu \<Rightarrow> 'd ParsedNumber" where
  "newParsedNumber fp = \<lparr>intValue = 0, doubleValue = fromInt fp 0, isInteger = True\<rparr>"

definition addDigitDouble :: "'d fpu \<Rightarrow> int \<Rightarrow> 'd ParsedNumber \<Rightarrow> error + 'd ParsedNumber" where
  "addDigitDouble fp i n =
     (let n' = n\<lparr>doubleValue :=
                    fadd fp (fmul fp (doubleValue n) (fromInt fp 10)) (fromInt fp (i - 48))\<rparr>
      in if isnan fp (doubleValue n') \<or> \<not> isfinite fp (doubleValue n')
         then Inl (JasonParserError ''numeric value out of bounds'')
         else Inr n')"

definition addDigit :: "'d fpu \<Rightarrow> int \<Rightarrow> 'd ParsedNumber \<Rightarrow> error + 'd ParsedNumber" where
  "addDigit fp i n =
     (if isInteger n then
        if intValue n < 1844674407370955161 \<or>
           (intValue n = 1844674407370955161 \<and> i - 48 \<le> 5)
        then Inr (n\<lparr>intValue := intValue n * 10 + word_of_int (i - 48)\<rparr>)
        else addDigitDouble fp i
               (n\<lparr>doubleValue := fromU64 fp (intValue n), isInteger := False\<rparr>)
      else addDigitDouble fp i n)"

definition asDouble :: "'d fpu \<Rightarrow> 'd ParsedNumber \<Rightarrow> 'd" where
  "asDouble fp n = (if isInteger n then fromU64 fp (intValue n) else doubleValue n)"

subsection \<open>Builder and parser state\<close>

text \<open>
  \<^verbatim>\<open>JasonBuilder.h\<close> is not among the sources. The parser reads and writes two of the
  builder's members directly, \<^verbatim>\<open>_b._start\<close> and \<^verbatim>\<open>_b._pos\<close>; the model keeps the
  bytes below \<^verbatim>\<open>_b._pos\<close> as the list \<open>b_start\<close>, so that \<^verbatim>\<open>_b._pos\<close> is its
  length, \<^verbatim>\<open>_b._start[_b._pos++] = x\<close> appends \<open>x\<close> and \<^verbatim>\<open>_b._pos -= 3\<close> drops the
  last three bytes. \<^verbatim>\<open>reserveSpace\<close> only grows the capacity and has no counterpart.
  The builder's options are of an arbitrary type \<open>'o\<close> and whatever else the builder
  holds (its stack of open containers) is \<open>b_rest\<close>, of an arbitrary type \<open>'k\<close>.
\<close>

record ('o, 'k) JasonBuilder =
  b_start :: "byte list"
  b_options :: "'o"
  b_rest :: "'k"

abbreviation b_pos :: "('o, 'k) JasonBuilder \<Rightarrow> nat" where
  "b_pos b \<equiv> length (b_start b)"

text \<open>
  The parser: \<^verbatim>\<open>_b\<close>, the input \<^verbatim>\<open>_start\<close> with \<^verbatim>\<open>_size\<close> its length, the read
  position \<^verbatim>\<open>_pos\<close> and the public member \<^verbatim>\<open>options\<close>.
\<close>

record ('o, 'k) JasonParser =
  p_b :: "('o, 'k) JasonBuilder"
  p_start :: "byte list"
  p_pos :: nat
  options :: "'o"

abbreviation p_size :: "('o, 'k) JasonParser \<Rightarrow> nat" where
  "p_size p \<equiv> length (p_start p)"

definition errorPos :: "('o, 'k) JasonParser \<Rightarrow> nat" where
  "errorPos p = (if p_pos p > 0 then p_pos p - 1 else p_pos p)"

text \<open>
  A member function returning \<open>'a\<close> becomes a function from the parser to either the
  error with the parser at the throw, or the result with the parser after the call.
\<close>

type_synonym ('a, 'o, 'k) res = "error \<times> ('o, 'k) JasonParser + 'a \<times> ('o, 'k) JasonParser"

definition throw :: "string \<Rightarrow> ('o, 'k) JasonParser \<Rightarrow> ('a, 'o, 'k) res" where
  "throw msg p = Inl (JasonParserError msg, p)"

definition andThen ::
  "('a, 'o, 'k) res \<Rightarrow> ('a \<Rightarrow> ('o, 'k) JasonParser \<Rightarrow> ('b, 'o, 'k) res) \<Rightarrow> ('b, 'o, 'k) res" where
  "andThen m f = (case m of Inl e \<Rightarrow> Inl e | Inr (x, p) \<Rightarrow> f x p)"

definition peek :: "('o, 'k) JasonParser \<Rightarrow> int" where
  "peek p = (if p_pos p \<ge> p_size p then - 1 else uint (p_start p ! p_pos p))"

definition consume :: "('o, 'k) JasonParser \<Rightarrow> int \<times> ('o, 'k) JasonParser" where
  "consume p =
     (if p_pos p \<ge> p_size p then (- 1, p)
      else (uint (p_start p ! p_pos p), p\<lparr>p_pos := p_pos p + 1\<rparr>))"

definition unconsume :: "('o, 'k) JasonParser \<Rightarrow> (unit, 'o, 'k) res" where
  "unconsume p =
     (if p_pos p = 0 then Inl (CursorUnderflow, p) else Inr ((), p\<lparr>p_pos := p_pos p - 1\<rparr>))"

definition reset :: "('o, 'k) JasonParser \<Rightarrow> ('o, 'k) JasonParser" where
  "reset p = p\<lparr>p_pos := 0\<rparr>"

definition getOneOrThrow :: "string \<Rightarrow> ('o, 'k) JasonParser \<Rightarrow> (int, 'o, 'k) res" where
  "getOneOrThrow msg p =
     (case consume p of (i, p') \<Rightarrow> if i < 0 then throw msg p' else Inr (i, p'))"

subsection \<open>Whitespace\<close>

definition isWhiteSpace :: "byte \<Rightarrow> bool" where
  "isWhiteSpace i \<longleftrightarrow> i = 0x20 \<or> i = 0x09 \<or> i = 0x0a \<or> i = 0x0d"

text \<open>
  Modelled from the spec: \<^verbatim>\<open>JSONSkipWhiteSpace\<close> is declared in \<^verbatim>\<open>JasonAsm.h\<close>, which
  is not among the sources. The spec: whitespace is the bytes \<open>0x20, 0x09, 0x0A, 0x0D\<close>
  only, and \<^verbatim>\<open>skipWhiteSpace\<close> advances past them. The function gets the bytes from the
  read position on (at most \<open>limit\<close> of them) and returns how many it skipped.
\<close>

definition JSONSkipWhiteSpace :: "byte list \<Rightarrow> nat \<Rightarrow> nat" where
  "JSONSkipWhiteSpace src limit = length (takeWhile isWhiteSpace (take limit src))"

definition skipWhiteSpace :: "string \<Rightarrow> ('o, 'k) JasonParser \<Rightarrow> (int, 'o, 'k) res" where
  "skipWhiteSpace err p =
     (let remaining = p_size p - p_pos p;
          src = drop (p_pos p) (p_start p);
          count = JSONSkipWhiteSpace src remaining;
          p' = p\<lparr>p_pos := p_pos p + count\<rparr>
      in if count < remaining then Inr (uint (p_start p' ! p_pos p'), p')
         else throw err p')"

subsection \<open>The builder's operations\<close>

text \<open>
  The member functions of \<^verbatim>\<open>JasonBuilder\<close> that the parser calls are parameters: any
  functions on the builder. (What they write, and how \<^verbatim>\<open>close\<close> lays a container
  out, is the builder's business.)
\<close>

record ('d, 'o, 'k) JasonBuilderOps =
  addNull :: "('o, 'k) JasonBuilder \<Rightarrow> ('o, 'k) JasonBuilder"
  addTrue :: "('o, 'k) JasonBuilder \<Rightarrow> ('o, 'k) JasonBuilder"
  addFalse :: "('o, 'k) JasonBuilder \<Rightarrow> ('o, 'k) JasonBuilder"
  addUInt :: "64 word \<Rightarrow> ('o, 'k) JasonBuilder \<Rightarrow> ('o, 'k) JasonBuilder"
  addNegInt :: "64 word \<Rightarrow> ('o, 'k) JasonBuilder \<Rightarrow> ('o, 'k) JasonBuilder"
  addDouble :: "'d \<Rightarrow> ('o, 'k) JasonBuilder \<Rightarrow> ('o, 'k) JasonBuilder"
  addArray :: "('o, 'k) JasonBuilder \<Rightarrow> ('o, 'k) JasonBuilder"
  addObject :: "('o, 'k) JasonBuilder \<Rightarrow> ('o, 'k) JasonBuilder"
  reportAdd :: "nat \<Rightarrow> ('o, 'k) JasonBuilder \<Rightarrow> ('o, 'k) JasonBuilder"
  close :: "('o, 'k) JasonBuilder \<Rightarrow> ('o, 'k) JasonBuilder"
  clearedRest :: "'k"

text \<open>
  Modelled from the spec: \<^verbatim>\<open>JasonBuilder::clear\<close> is not among the sources. The spec:
  on reuse, \<^verbatim>\<open>clear\<close> resets \<^verbatim>\<open>bufPos\<close> to zero and empties the stack. The rest
  of the builder with its stack emptied is the parameter \<open>clearedRest\<close>.
\<close>

definition clear :: "('d, 'o, 'k) JasonBuilderOps \<Rightarrow> ('o, 'k) JasonBuilder \<Rightarrow> ('o, 'k) JasonBuilder" where
  "clear ops b = b\<lparr>b_start := [], b_rest := clearedRest ops\<rparr>"

text \<open>
  The parameters of a parse: the double arithmetic, the builder's operations, and
  whether \<^verbatim>\<open>JASON_VALIDATEUTF8\<close> is defined (it selects between two bodies of the
  string loop with \<^verbatim>\<open>#ifdef\<close>).
\<close>

record ('d, 'o, 'k) env =
  arith :: "'d fpu"
  bops :: "('d, 'o, 'k) JasonBuilderOps"
  validateUtf8 :: bool

definition build ::
  "(('o, 'k) JasonBuilder \<Rightarrow> ('o, 'k) JasonBuilder) \<Rightarrow> ('o, 'k) JasonParser \<Rightarrow> (unit, 'o, 'k) res" where
  "build f p = Inr ((), p\<lparr>p_b := f (p_b p)\<rparr>)"

text \<open>\<^verbatim>\<open>_b.reserveSpace(1); _b._start[_b._pos++] = x;\<close>\<close>

definition put :: "byte \<Rightarrow> ('o, 'k) JasonParser \<Rightarrow> ('o, 'k) JasonParser" where
  "put x p = p\<lparr>p_b := (p_b p)\<lparr>b_start := b_start (p_b p) @ [x]\<rparr>\<rparr>"

subsection \<open>Literals\<close>

definition parseTrue :: "('d, 'o, 'k) env \<Rightarrow> ('o, 'k) JasonParser \<Rightarrow> (unit, 'o, 'k) res" where
  "parseTrue env p =
     (case consume p of (i1, p1) \<Rightarrow>
        if i1 \<noteq> 114 then throw ''true expected'' p1 else
      case consume p1 of (i2, p2) \<Rightarrow>
        if i2 \<noteq> 117 then throw ''true expected'' p2 else
      case consume p2 of (i3, p3) \<Rightarrow>
        if i3 \<noteq> 101 then throw ''true expected'' p3 else
      build (addTrue (bops env)) p3)"

definition parseFalse :: "('d, 'o, 'k) env \<Rightarrow> ('o, 'k) JasonParser \<Rightarrow> (unit, 'o, 'k) res" where
  "parseFalse env p =
     (case consume p of (i1, p1) \<Rightarrow>
        if i1 \<noteq> 97 then throw ''false expected'' p1 else
      case consume p1 of (i2, p2) \<Rightarrow>
        if i2 \<noteq> 108 then throw ''false expected'' p2 else
      case consume p2 of (i3, p3) \<Rightarrow>
        if i3 \<noteq> 115 then throw ''false expected'' p3 else
      case consume p3 of (i4, p4) \<Rightarrow>
        if i4 \<noteq> 101 then throw ''false expected'' p4 else
      build (addFalse (bops env)) p4)"

definition parseNull :: "('d, 'o, 'k) env \<Rightarrow> ('o, 'k) JasonParser \<Rightarrow> (unit, 'o, 'k) res" where
  "parseNull env p =
     (case consume p of (i1, p1) \<Rightarrow>
        if i1 \<noteq> 117 then throw ''null expected'' p1 else
      case consume p1 of (i2, p2) \<Rightarrow>
        if i2 \<noteq> 108 then throw ''null expected'' p2 else
      case consume p2 of (i3, p3) \<Rightarrow>
        if i3 \<noteq> 108 then throw ''null expected'' p3 else
      build (addNull (bops env)) p3)"

subsection \<open>Number lexing\<close>

function scanDigits ::
  "'d fpu \<Rightarrow> 'd ParsedNumber \<Rightarrow> ('o, 'k) JasonParser \<Rightarrow> ('d ParsedNumber, 'o, 'k) res" where
  "scanDigits fp v p =
     (case consume p of (i, p') \<Rightarrow>
        if i < 0 then Inr (v, p')
        else if i < 48 \<or> i > 57
             then andThen (unconsume p') (\<lambda>_ p''. Inr (v, p''))
             else (case addDigit fp i v of
                     Inl e \<Rightarrow> Inl (e, p')
                   | Inr v' \<Rightarrow> scanDigits fp v' p'))"
  by pat_completeness auto
termination
  by (relation "measure (\<lambda>(fp, v, p). p_size p - p_pos p)")
     (auto simp: consume_def split: if_splits)

declare scanDigits.simps [simp del]

function scanDigitsFractionalLoop ::
  "'d fpu \<Rightarrow> 'd \<Rightarrow> 'd \<Rightarrow> ('o, 'k) JasonParser \<Rightarrow> ('d, 'o, 'k) res" where
  "scanDigitsFractionalLoop fp pot x p =
     (case consume p of (i, p') \<Rightarrow>
        if i < 0 then Inr (x, p')
        else if i < 48 \<or> i > 57
             then andThen (unconsume p') (\<lambda>_ p''. Inr (x, p''))
             else scanDigitsFractionalLoop fp
                    (fdiv fp pot (fromInt fp 10))
                    (fadd fp x (fmul fp pot (fromInt fp (i - 48)))) p')"
  by pat_completeness auto
termination
  by (relation "measure (\<lambda>(fp, pot, x, p). p_size p - p_pos p)")
     (auto simp: consume_def split: if_splits)

declare scanDigitsFractionalLoop.simps [simp del]

definition scanDigitsFractional :: "'d fpu \<Rightarrow> ('o, 'k) JasonParser \<Rightarrow> ('d, 'o, 'k) res" where
  "scanDigitsFractional fp p = scanDigitsFractionalLoop fp (point1 fp) (fromInt fp 0) p"

text \<open>
  \<^verbatim>\<open>parseNumber\<close> in three parts: the exponent (from the byte after \<^verbatim>\<open>e\<close>/\<^verbatim>\<open>E\<close>),
  the fraction (from the byte after the \<^verbatim>\<open>.\<close>), and the sign and integer part, which
  returns as soon as the byte after the integer part is not a \<^verbatim>\<open>.\<close>.
\<close>

definition parseNumberExponent ::
  "('d, 'o, 'k) env \<Rightarrow> 'd \<Rightarrow> ('o, 'k) JasonParser \<Rightarrow> (unit, 'o, 'k) res" where
  "parseNumberExponent env fractionalPart p =
     andThen (getOneOrThrow ''scanNumber: incomplete number'' p) (\<lambda>i p.
     andThen (if i = 43 \<or> i = 45
              then andThen (getOneOrThrow ''scanNumber: incomplete number'' p)
                     (\<lambda>i' p. Inr ((i', i = 45), p))
              else Inr ((i, False), p)) (\<lambda>(i, negative) p.
     if i < 48 \<or> i > 57 then throw ''scanNumber: incomplete number'' p else
     andThen (unconsume p) (\<lambda>_ p.
     andThen (scanDigits (arith env) (newParsedNumber (arith env)) p) (\<lambda>exponent p.
     let fractionalPart' =
           (if negative
            then fmul (arith env) fractionalPart
                   (fpow (arith env) (fromInt (arith env) 10)
                      (fneg (arith env) (asDouble (arith env) exponent)))
            else fmul (arith env) fractionalPart
                   (fpow (arith env) (fromInt (arith env) 10) (asDouble (arith env) exponent)))
     in if isnan (arith env) fractionalPart' \<or> \<not> isfinite (arith env) fractionalPart'
        then throw ''numeric value out of bounds'' p
        else build (addDouble (bops env) fractionalPart') p))))"

definition parseNumberFraction ::
  "('d, 'o, 'k) env \<Rightarrow> 'd ParsedNumber \<Rightarrow> bool \<Rightarrow> ('o, 'k) JasonParser \<Rightarrow> (unit, 'o, 'k) res" where
  "parseNumberFraction env numberValue negative p =
     andThen (getOneOrThrow ''scanNumber: incomplete number'' p) (\<lambda>i p.
     if i < 48 \<or> i > 57 then throw ''scanNumber: incomplete number'' p else
     andThen (unconsume p) (\<lambda>_ p.
     andThen (scanDigitsFractional (arith env) p) (\<lambda>frac p.
     let fractionalPart =
           (if negative
            then fsub (arith env) (fneg (arith env) (asDouble (arith env) numberValue)) frac
            else fadd (arith env) (asDouble (arith env) numberValue) frac)
     in case consume p of (i, p) \<Rightarrow>
          if i < 0 then build (addDouble (bops env) fractionalPart) p
          else if i \<noteq> 101 \<and> i \<noteq> 69
               then andThen (unconsume p) (\<lambda>_ p. build (addDouble (bops env) fractionalPart) p)
               else parseNumberExponent env fractionalPart p)))"

definition parseNumber :: "('d, 'o, 'k) env \<Rightarrow> ('o, 'k) JasonParser \<Rightarrow> (unit, 'o, 'k) res" where
  "parseNumber env p =
     (case consume p of (i, p) \<Rightarrow>
      andThen (if i = 45
               then andThen (getOneOrThrow ''scanNumber: incomplete number'' p)
                      (\<lambda>i' p. Inr ((i', True), p))
               else Inr ((i, False), p)) (\<lambda>(i, negative) p.
      if i < 48 \<or> i > 57 then throw ''value expected'' p else
      andThen (if i \<noteq> 48
               then andThen (unconsume p) (\<lambda>_ p. scanDigits (arith env) (newParsedNumber (arith env)) p)
               else Inr (newParsedNumber (arith env), p)) (\<lambda>numberValue p.
      case consume p of (i, p) \<Rightarrow>
        if i < 0 \<or> i \<noteq> 46 then
          andThen (if i \<ge> 0 then unconsume p else Inr ((), p)) (\<lambda>_ p.
          if \<not> isInteger numberValue
          then build (addDouble (bops env) (doubleValue numberValue)) p
          else if negative
               then build (addNegInt (bops env) (intValue numberValue)) p
               else build (addUInt (bops env) (intValue numberValue)) p)
        else parseNumberFraction env numberValue negative p)))"

subsection \<open>String lexing\<close>

text \<open>
  Modelled from the spec: \<^verbatim>\<open>JSONStringCopy\<close> is declared in \<^verbatim>\<open>JasonAsm.h\<close>, which is
  not among the sources. The spec takes the string scanner's scalar fallback as
  sufficient; the fallback modelled here stops as \<^verbatim>\<open>fastStringCopy\<close> of the source does,
  at the first \<^verbatim>\<open>"\<close>, backslash or byte below 32, and at \<open>limit\<close> bytes. It returns the
  copied bytes; their number is the function's result in the source.
\<close>

definition JSONStringCopy :: "byte list \<Rightarrow> nat \<Rightarrow> byte list" where
  "JSONStringCopy src limit =
     takeWhile (\<lambda>c. c \<noteq> 0x22 \<and> c \<noteq> 0x5c \<and> c \<ge> 32) (take limit src)"

text \<open>The fast path of the string loop when \<^verbatim>\<open>JASON_VALIDATEUTF8\<close> is not defined.\<close>

definition stringFastCopy :: "('o, 'k) JasonParser \<Rightarrow> ('o, 'k) JasonParser" where
  "stringFastCopy p =
     (let remainder = p_size p - p_pos p
      in if remainder \<ge> 16
         then let copied = JSONStringCopy (drop (p_pos p) (p_start p)) remainder
              in p\<lparr>p_pos := p_pos p + length copied,
                   p_b := (p_b p)\<lparr>b_start := b_start (p_b p) @ copied\<rparr>\<rparr>
         else p)"

text \<open>
  Promotion to a long string: \<^verbatim>\<open>memmove\<close> of the bytes after the tag by 8 and
  \<^verbatim>\<open>_b._pos += 8\<close>. The 8 bytes after the tag keep what they held.
\<close>

definition stringPromote ::
  "nat \<Rightarrow> bool \<Rightarrow> ('o, 'k) JasonParser \<Rightarrow> bool \<times> ('o, 'k) JasonParser" where
  "stringPromote base large p =
     (if \<not> large \<and> b_pos (p_b p) - (base + 1) > 127
      then (True, p\<lparr>p_b := (p_b p)\<lparr>b_start :=
                    take (base + 9) (b_start (p_b p)) @ drop (base + 1) (b_start (p_b p))\<rparr>\<rparr>)
      else (large, p))"

text \<open>The closing quote: the tag and, for a long string, the length are patched in.\<close>

definition writeLength :: "nat \<Rightarrow> 64 word \<Rightarrow> byte list \<Rightarrow> byte list" where
  "writeLength base len buf =
     fst (fold (\<lambda>i (buf, len). (buf[base + i := ucast (len AND 0xff)], drop_bit 8 len))
            [1 ..< 9] (buf, len))"

definition stringClose :: "nat \<Rightarrow> bool \<Rightarrow> ('o, 'k) JasonParser \<Rightarrow> ('o, 'k) JasonParser" where
  "stringClose base large p =
     (let buf = b_start (p_b p)
      in if \<not> large
         then let len = (of_nat (length buf - (base + 1)) :: 64 word)
              in p\<lparr>p_b := (p_b p)\<lparr>b_start := buf[base := 0x40 + ucast len]\<rparr>\<rparr>
         else let len = (of_nat (length buf - (base + 9)) :: 64 word)
              in p\<lparr>p_b := (p_b p)\<lparr>b_start := writeLength base len (buf[base := 0x0c])\<rparr>\<rparr>)"

definition backslash :: char where
  "backslash = CHR 0x5c"

definition dquote :: char where
  "dquote = CHR 0x22"

text \<open>The four hexadecimal digits of a \<^verbatim>\<open>\\u\<close> escape; \<open>j\<close> counts the digits still to read.\<close>

fun scanHex :: "nat \<Rightarrow> 32 word \<Rightarrow> ('o, 'k) JasonParser \<Rightarrow> (32 word, 'o, 'k) res" where
  "scanHex 0 v p = Inr (v, p)"
| "scanHex (Suc j) v p =
     (case consume p of (i, p) \<Rightarrow>
        if i < 0 then throw (''scanString: Unfinished '' @ [backslash] @ ''uXXXX.'') p
        else if i \<ge> 48 \<and> i \<le> 57 then scanHex j (push_bit 4 v + word_of_int i - 48) p
        else if i \<ge> 97 \<and> i \<le> 102 then scanHex j (push_bit 4 v + word_of_int i - 97 + 10) p
        else if i \<ge> 65 \<and> i \<le> 70 then scanHex j (push_bit 4 v + word_of_int i - 65 + 10) p
        else throw ''scanString: Illegal hash digit.'' p)"

text \<open>
  What is written for the code unit \<open>v\<close> of a \<^verbatim>\<open>\\u\<close> escape; the result is the new
  \<^verbatim>\<open>highSurrogate\<close>. \<^verbatim>\<open>_b._pos -= 3\<close> drops the last three bytes written.
\<close>

definition putUnicode :: "32 word \<Rightarrow> 32 word \<Rightarrow> ('o, 'k) JasonParser \<Rightarrow> 32 word \<times> ('o, 'k) JasonParser" where
  "putUnicode v highSurrogate p =
     (if v < 0x80 then (0, put (ucast v) p)
      else if v < 0x800
      then (0, put (ucast (0x80 + (v AND 0x3f))) (put (ucast (0xc0 + drop_bit 6 v)) p))
      else if v \<ge> 0xdc00 \<and> v < 0xe000 \<and> highSurrogate \<noteq> 0
      then let v = 0x10000 + push_bit 10 (highSurrogate - 0xd800) + v - 0xdc00;
               p = p\<lparr>p_b := (p_b p)\<lparr>b_start :=
                        take (b_pos (p_b p) - 3) (b_start (p_b p))\<rparr>\<rparr>
           in (0, put (ucast (0x80 + (v AND 0x3f)))
                   (put (ucast (0x80 + (drop_bit 6 v AND 0x3f)))
                   (put (ucast (0x80 + (drop_bit 12 v AND 0x3f)))
                   (put (ucast (0xf0 + drop_bit 18 v)) p))))
      else (if v \<ge> 0xd800 \<and> v < 0xdc00 then v else 0,
            put (ucast (0x80 + (v AND 0x3f)))
              (put (ucast (0x80 + (drop_bit 6 v AND 0x3f)))
              (put (ucast (0xe0 + drop_bit 12 v)) p))))"

text \<open>The follow bytes of a multi-byte UTF-8 sequence; \<open>j\<close> counts those still to read.\<close>

fun scanFollow :: "nat \<Rightarrow> ('o, 'k) JasonParser \<Rightarrow> (unit, 'o, 'k) res" where
  "scanFollow 0 p = Inr ((), p)"
| "scanFollow (Suc j) p =
     andThen (getOneOrThrow ''scanString: truncated UTF-8 sequence'' p) (\<lambda>i p.
       if i AND 0xc0 \<noteq> 0x80 then throw ''scanString: invalid UTF-8 sequence'' p
       else scanFollow j (put (word_of_int i) p))"

text \<open>
  The \<^verbatim>\<open>switch (i)\<close> of the string loop. \<open>None\<close>: the closing quote was seen and
  \<^verbatim>\<open>parseString\<close> returns; \<open>Some h\<close>: the loop goes on with \<^verbatim>\<open>highSurrogate\<close> \<open>h\<close>.
\<close>

definition stringEscape ::
  "32 word \<Rightarrow> ('o, 'k) JasonParser \<Rightarrow> (32 word option, 'o, 'k) res" where
  "stringEscape highSurrogate p =
     (case consume p of (i, p) \<Rightarrow>
        if i < 0 then throw ''scanString: Unfinished string detected.'' p
        else if i = 0x22 \<or> i = 0x2f \<or> i = 0x5c then Inr (Some 0, put (word_of_int i) p)
        else if i = 0x62 then Inr (Some 0, put 0x08 p)
        else if i = 0x66 then Inr (Some 0, put 0x0c p)
        else if i = 0x6e then Inr (Some 0, put 0x0a p)
        else if i = 0x72 then Inr (Some 0, put 0x0d p)
        else if i = 0x74 then Inr (Some 0, put 0x09 p)
        else if i = 0x75 then
          andThen (scanHex 4 0 p) (\<lambda>v p.
            case putUnicode v highSurrogate p of (h, p) \<Rightarrow> Inr (Some h, p))
        else throw (''scanString: Illegal '' @ [backslash] @ '' sequence.'') p)"

definition stringPlain :: "int \<Rightarrow> ('o, 'k) JasonParser \<Rightarrow> (32 word option, 'o, 'k) res" where
  "stringPlain i p =
     (if i AND 0x80 = 0 then
        if i < 0x20 then throw ''scanString: Found control character.'' p
        else Inr (Some 0, put (word_of_int i) p)
      else
        andThen (if i AND 0xe0 = 0x80 then throw ''scanString: Illegal UTF-8 byte.'' p
                 else if i AND 0xe0 = 0xc0 then Inr (1, p)
                 else if i AND 0xf0 = 0xe0 then Inr (2, p)
                 else if i AND 0xf8 = 0xf0 then Inr (3, p)
                 else throw ''scanString: Illegal 5- or 6-byte sequence found in UTF-8 string.'' p)
          (\<lambda>follow p.
             andThen (scanFollow follow (put (word_of_int i) p)) (\<lambda>_ p. Inr (Some 0, p))))"

definition stringSwitch ::
  "nat \<Rightarrow> bool \<Rightarrow> 32 word \<Rightarrow> int \<Rightarrow> ('o, 'k) JasonParser \<Rightarrow> (32 word option, 'o, 'k) res" where
  "stringSwitch base large highSurrogate i p =
     (if i = 0x22 then Inr (None, stringClose base large p)
      else if i = 0x5c then stringEscape highSurrogate p
      else stringPlain i p)"

text \<open>
  One turn of \<^verbatim>\<open>while (true)\<close>. \<open>None\<close>: \<^verbatim>\<open>parseString\<close> returns; \<open>Some (large, h)\<close>:
  the next turn starts with these values of \<^verbatim>\<open>large\<close> and \<^verbatim>\<open>highSurrogate\<close>.
\<close>

definition parseStringIter ::
  "('d, 'o, 'k) env \<Rightarrow> nat \<Rightarrow> bool \<Rightarrow> 32 word \<Rightarrow> ('o, 'k) JasonParser \<Rightarrow>
   ((bool \<times> 32 word) option, 'o, 'k) res" where
  "parseStringIter env base large highSurrogate p =
     (if validateUtf8 env then
        andThen (getOneOrThrow ''scanString: Unfinished string detected.'' p) (\<lambda>i p.
        andThen (stringSwitch base large highSurrogate i p) (\<lambda>r p.
          case r of
            None \<Rightarrow> Inr (None, p)
          | Some h \<Rightarrow> (case stringPromote base large p of (large, p) \<Rightarrow> Inr (Some (large, h), p))))
      else
        andThen (getOneOrThrow ''scanString: Unfinished string detected.'' (stringFastCopy p)) (\<lambda>i p.
        case stringPromote base large p of (large, p) \<Rightarrow>
        andThen (stringSwitch base large highSurrogate i p) (\<lambda>r p.
          case r of
            None \<Rightarrow> Inr (None, p)
          | Some h \<Rightarrow> Inr (Some (large, h), p))))"

text \<open>
  Every turn of the string loop that does not return or throw has read at least one
  byte; the input is never changed. This is what makes the loop terminate.
\<close>

definition advances :: "('o, 'k) JasonParser \<Rightarrow> ('o, 'k) JasonParser \<Rightarrow> bool" where
  "advances p p' \<longleftrightarrow> p_start p' = p_start p \<and> p_pos p \<le> p_pos p'"

lemma advances_refl [simp]: "advances p p"
  by (simp add: advances_def)

lemma advances_trans: "advances p p' \<Longrightarrow> advances p' p'' \<Longrightarrow> advances p p''"
  by (auto simp: advances_def)

lemma advances_put [simp]: "advances p (put x p') = advances p p'"
  by (simp add: advances_def put_def)

lemma advances_put_left [simp]: "advances (put x p) p' = advances p p'"
  by (simp add: advances_def put_def)

lemma consume_advances: "consume p = (i, p') \<Longrightarrow> advances p p'"
  by (auto simp: consume_def advances_def split: if_splits)

lemma getOneOrThrow_step:
  "getOneOrThrow msg p = Inr (i, p') \<Longrightarrow>
     p_start p' = p_start p \<and> p_pos p' = Suc (p_pos p) \<and> p_pos p < p_size p"
  by (auto simp: getOneOrThrow_def consume_def throw_def split: if_splits)

lemma scanHex_advances: "scanHex j v p = Inr (v', p') \<Longrightarrow> advances p p'"
proof (induction j arbitrary: v p)
  case 0
  then show ?case by simp
next
  case (Suc j)
  obtain i q where c: "consume p = (i, q)" by (cases "consume p")
  from Suc.prems c obtain w where "scanHex j w q = Inr (v', p')"
    by (auto simp: throw_def split: if_splits)
  then have "advances q p'" by (rule Suc.IH)
  with consume_advances [OF c] show ?case by (rule advances_trans)
qed

lemma scanFollow_advances: "scanFollow j p = Inr (u, p') \<Longrightarrow> advances p p'"
proof (induction j arbitrary: p)
  case 0
  then show ?case by simp
next
  case (Suc j)
  from Suc.prems obtain i q where g: "getOneOrThrow ''scanString: truncated UTF-8 sequence'' p = Inr (i, q)"
    and r: "scanFollow j (put (word_of_int i) q) = Inr (u, p')"
    by (auto simp: andThen_def throw_def split: sum.splits if_splits)
  from Suc.IH [OF r] have "advances q p'"
    by (simp add: advances_def put_def)
  moreover from getOneOrThrow_step [OF g] have "advances p q"
    by (simp add: advances_def)
  ultimately show ?case by (blast intro: advances_trans)
qed

lemma putUnicode_advances: "putUnicode v h p = (h', p') \<Longrightarrow> advances p p'"
  by (auto simp: putUnicode_def Let_def advances_def put_def split: if_splits)

lemma stringEscape_advances: "stringEscape h p = Inr (r, p') \<Longrightarrow> advances p p'"
  unfolding stringEscape_def
  by (auto simp: throw_def andThen_def split: prod.splits if_splits sum.splits
           dest!: consume_advances scanHex_advances putUnicode_advances
           intro: advances_trans)

lemma stringPlain_advances:
  assumes "stringPlain i p = Inr (r, p')"
  shows "advances p p'"
proof -
  from assms have "p' = put (word_of_int i) p \<or>
      (\<exists>follow u. scanFollow follow (put (word_of_int i) p) = Inr (u, p'))"
    by (auto simp: stringPlain_def throw_def andThen_def
             simp del: scanFollow.simps split: if_splits sum.splits)
  then show ?thesis
    by (auto dest: scanFollow_advances)
qed

lemma stringClose_advances: "advances p (stringClose base large p)"
  by (simp add: stringClose_def Let_def advances_def)

lemma stringSwitch_advances: "stringSwitch base large h i p = Inr (r, p') \<Longrightarrow> advances p p'"
  by (auto simp: stringSwitch_def stringClose_advances split: if_splits
           dest: stringEscape_advances stringPlain_advances)

lemma stringPromote_advances: "stringPromote base large p = (l, p') \<Longrightarrow> advances p p'"
  by (auto simp: stringPromote_def advances_def split: if_splits)

lemma stringFastCopy_advances: "advances p (stringFastCopy p)"
  by (simp add: stringFastCopy_def Let_def advances_def)

lemma parseStringIter_progress:
  assumes "parseStringIter env base large h p = Inr (r, p')"
  shows "p_start p' = p_start p \<and> p_pos p < p_pos p' \<and> p_pos p < p_size p"
proof (cases "validateUtf8 env")
  case True
  with assms obtain i q s q' where g: "getOneOrThrow ''scanString: Unfinished string detected.'' p = Inr (i, q)"
    and sw: "stringSwitch base large h i q = Inr (s, q')"
    and pr: "p' = q' \<or> (\<exists>l. stringPromote base large q' = (l, p'))"
    by (auto simp: parseStringIter_def andThen_def split: sum.splits option.splits prod.splits)
  from pr have "advances q' p'" by (auto dest: stringPromote_advances)
  with stringSwitch_advances [OF sw] have "advances q p'" by (blast intro: advances_trans)
  with getOneOrThrow_step [OF g] show ?thesis by (auto simp: advances_def)
next
  case False
  with assms obtain i q l q1 s where g: "getOneOrThrow ''scanString: Unfinished string detected.'' (stringFastCopy p) = Inr (i, q)"
    and pr: "stringPromote base large q = (l, q1)"
    and sw: "stringSwitch base l h i q1 = Inr (s, p')"
    by (auto simp: parseStringIter_def andThen_def split: sum.splits option.splits prod.splits)
  from stringPromote_advances [OF pr] stringSwitch_advances [OF sw] have "advances q p'"
    by (blast intro: advances_trans)
  with getOneOrThrow_step [OF g] stringFastCopy_advances [of p] show ?thesis
    by (auto simp: advances_def)
qed

function parseStringLoop ::
  "('d, 'o, 'k) env \<Rightarrow> nat \<Rightarrow> bool \<Rightarrow> 32 word \<Rightarrow> ('o, 'k) JasonParser \<Rightarrow> (unit, 'o, 'k) res" where
  "parseStringLoop env base large highSurrogate p =
     (case parseStringIter env base large highSurrogate p of
        Inl e \<Rightarrow> Inl e
      | Inr (None, p') \<Rightarrow> Inr ((), p')
      | Inr (Some (large', highSurrogate'), p') \<Rightarrow>
          parseStringLoop env base large' highSurrogate' p')"
  by pat_completeness auto
termination
proof (relation "measure (\<lambda>(env, base, large, h, p). p_size p - p_pos p)", goal_cases)
  case 1
  show ?case by simp
next
  case (2 env base large h p x r p' st large' h')
  then have "parseStringIter env base large h p = Inr (Some (large', h'), p')" by simp
  from parseStringIter_progress [OF this] show ?case by auto
qed

definition parseString :: "('d, 'o, 'k) env \<Rightarrow> ('o, 'k) JasonParser \<Rightarrow> (unit, 'o, 'k) res" where
  "parseString env p =
     (let base = b_pos (p_b p)
      in parseStringLoop env base False 0 (put 0x40 p))"

declare parseStringLoop.simps [simp del]

subsection \<open>Arrays, objects and values\<close>

text \<open>
  \<^verbatim>\<open>parseJson\<close>, \<^verbatim>\<open>parseArray\<close> and \<^verbatim>\<open>parseObject\<close> call each other; the fuel bounds
  the calls and loop turns still allowed.
\<close>

function (sequential) parseJson :: "('d, 'o, 'k) env \<Rightarrow> nat \<Rightarrow> ('o, 'k) JasonParser \<Rightarrow> (unit, 'o, 'k) res"
  and parseArray :: "('d, 'o, 'k) env \<Rightarrow> nat \<Rightarrow> ('o, 'k) JasonParser \<Rightarrow> (unit, 'o, 'k) res"
  and parseArrayLoop :: "('d, 'o, 'k) env \<Rightarrow> nat \<Rightarrow> nat \<Rightarrow> ('o, 'k) JasonParser \<Rightarrow> (unit, 'o, 'k) res"
  and parseObject :: "('d, 'o, 'k) env \<Rightarrow> nat \<Rightarrow> ('o, 'k) JasonParser \<Rightarrow> (unit, 'o, 'k) res"
  and parseObjectLoop :: "('d, 'o, 'k) env \<Rightarrow> nat \<Rightarrow> nat \<Rightarrow> int \<Rightarrow> ('o, 'k) JasonParser \<Rightarrow> (unit, 'o, 'k) res"
where
  "parseJson env 0 p = Inl (FuelExhausted, p)"
| "parseJson env (Suc n) p =
     andThen (skipWhiteSpace ''expecting item'' p) (\<lambda>_ p.
     case consume p of (i, p) \<Rightarrow>
       if i < 0 then Inr ((), p)
       else if i = 0x7b then parseObject env n p
       else if i = 0x5b then parseArray env n p
       else if i = 0x74 then parseTrue env p
       else if i = 0x66 then parseFalse env p
       else if i = 0x6e then parseNull env p
       else if i = 0x22 then parseString env p
       else andThen (unconsume p) (\<lambda>_ p. parseNumber env p))"
| "parseArray env n p =
     (let base = b_pos (p_b p)
      in andThen (build (addArray (bops env)) p) (\<lambda>_ p.
         andThen (skipWhiteSpace ''scanArray: item or ] expected'' p) (\<lambda>i p.
         if i = 0x5d
         then build (close (bops env)) (p\<lparr>p_pos := p_pos p + 1\<rparr>)
         else parseArrayLoop env n base p)))"
| "parseArrayLoop env 0 base p = Inl (FuelExhausted, p)"
| "parseArrayLoop env (Suc n) base p =
     andThen (build (reportAdd (bops env) base) p) (\<lambda>_ p.
     andThen (parseJson env n p) (\<lambda>_ p.
     andThen (skipWhiteSpace ''scanArray: , or ] expected'' p) (\<lambda>i p.
     if i = 0x5d
     then build (close (bops env)) (p\<lparr>p_pos := p_pos p + 1\<rparr>)
     else if i \<noteq> 0x2c then throw ''scanArray: , or ] expected'' p
     else parseArrayLoop env n base (p\<lparr>p_pos := p_pos p + 1\<rparr>))))"
| "parseObject env n p =
     (let base = b_pos (p_b p)
      in andThen (build (addObject (bops env)) p) (\<lambda>_ p.
         andThen (skipWhiteSpace ''scanObject: item or } expected'' p) (\<lambda>i p.
         if i = 0x7d
         then (case consume p of (_, p) \<Rightarrow> build (close (bops env)) p)
         else parseObjectLoop env n base i p)))"
| "parseObjectLoop env 0 base i p = Inl (FuelExhausted, p)"
| "parseObjectLoop env (Suc n) base i p =
     (if i \<noteq> 0x22 then throw (''scanObject: '' @ [dquote] @ '' or } expected'') p else
      andThen (build (reportAdd (bops env) base) (p\<lparr>p_pos := p_pos p + 1\<rparr>)) (\<lambda>_ p.
      andThen (parseString env p) (\<lambda>_ p.
      andThen (skipWhiteSpace ''scanObject: : expected'' p) (\<lambda>i p.
      if i \<noteq> 0x3a then throw ''scanObject: : expected'' p else
      andThen (parseJson env n (p\<lparr>p_pos := p_pos p + 1\<rparr>)) (\<lambda>_ p.
      andThen (skipWhiteSpace ''scanObject: , or } expected'' p) (\<lambda>i p.
      if i = 0x7d
      then build (close (bops env)) (p\<lparr>p_pos := p_pos p + 1\<rparr>)
      else if i \<noteq> 0x2c then throw ''scanObject: , or } expected'' p
      else andThen (skipWhiteSpace (''scanObject: '' @ [dquote] @ '' or } expected'')
                      (p\<lparr>p_pos := p_pos p + 1\<rparr>)) (\<lambda>i p.
           parseObjectLoop env n base i p)))))))"
  by pat_completeness auto
termination
  by (relation "measure (case_sum
         (case_sum (\<lambda>(env, n, p). 2 * n) (\<lambda>(env, n, p). 2 * n + 1))
         (case_sum (\<lambda>(env, n, base, p). 2 * n)
            (case_sum (\<lambda>(env, n, p). 2 * n + 1) (\<lambda>(env, n, base, i, p). 2 * n))))")
     simp_all

declare parseJson.simps [simp del] parseArray.simps [simp del] parseArrayLoop.simps [simp del]
  parseObject.simps [simp del] parseObjectLoop.simps [simp del]

subsection \<open>The top level\<close>

text \<open>The \<^verbatim>\<open>while\<close> loop of \<^verbatim>\<open>parseInternal\<close> that skips white space after a value.\<close>

function skipTrailing :: "('o, 'k) JasonParser \<Rightarrow> ('o, 'k) JasonParser" where
  "skipTrailing p =
     (if p_pos p < p_size p \<and> isWhiteSpace (p_start p ! p_pos p)
      then skipTrailing (p\<lparr>p_pos := p_pos p + 1\<rparr>)
      else p)"
  by pat_completeness auto
termination
  by (relation "measure (\<lambda>p. p_size p - p_pos p)") auto

declare skipTrailing.simps [simp del]

text \<open>
  The \<^verbatim>\<open>do \<dots> while\<close> loop of \<^verbatim>\<open>parseInternal\<close>: \<open>fuel\<close> bounds its turns,
  \<open>vfuel\<close> is the fuel of each top-level value.
\<close>

fun parseInternalLoop ::
  "('d, 'o, 'k) env \<Rightarrow> bool \<Rightarrow> nat \<Rightarrow> nat \<Rightarrow> nat \<Rightarrow> ('o, 'k) JasonParser \<Rightarrow> (nat, 'o, 'k) res" where
  "parseInternalLoop env multi vfuel 0 nr p = Inl (FuelExhausted, p)"
| "parseInternalLoop env multi vfuel (Suc fuel) nr p =
     andThen (parseJson env vfuel p) (\<lambda>_ p.
     let nr = nr + 1;
         p = skipTrailing p
     in if \<not> multi \<and> p_pos p \<noteq> p_size p
        then (case consume p of (_, p) \<Rightarrow> throw ''expecting EOF'' p)
        else if multi \<and> p_pos p < p_size p
             then parseInternalLoop env multi vfuel fuel nr p
             else Inr (nr, p))"

declare parseInternalLoop.simps [simp del]

text \<open>
  Every turn of a loop and every nested value reads at least one byte, so a fuel of
  twice the input size (and one) is never used up.
\<close>

definition parseInternal :: "('d, 'o, 'k) env \<Rightarrow> bool \<Rightarrow> ('o, 'k) JasonParser \<Rightarrow> (nat, 'o, 'k) res" where
  "parseInternal env multi p =
     (let p = p\<lparr>p_b := (p_b p)\<lparr>b_options := options p\<rparr>\<rparr>;
          p = (if p_size p \<ge> 3 \<and> p_start p ! 0 = 0xef \<and> p_start p ! 1 = 0xbb \<and>
                  p_start p ! 2 = 0xbf
               then p\<lparr>p_pos := p_pos p + 3\<rparr> else p)
      in parseInternalLoop env multi (2 * p_size p + 1) (p_size p + 1) 0 p)"

text \<open>
  The three overloads of \<^verbatim>\<open>parse\<close> differ in how the bytes are passed
  (\<^verbatim>\<open>std::string\<close>, \<^verbatim>\<open>uint8_t const*\<close> or \<^verbatim>\<open>char const*\<close> with a size); their bodies
  are the same.
\<close>

definition parse ::
  "('d, 'o, 'k) env \<Rightarrow> byte list \<Rightarrow> bool \<Rightarrow> ('o, 'k) JasonParser \<Rightarrow> (nat, 'o, 'k) res" where
  "parse env json multi p =
     parseInternal env multi
       (p\<lparr>p_start := json, p_pos := 0, p_b := clear (bops env) (p_b p)\<rparr>)"

subsection \<open>What the caller observes\<close>

text \<open>
  After a throw the caller has the message and \<^verbatim>\<open>errorPos()\<close>; after a return, the
  count and the builder.
\<close>

definition outcome :: "(nat, 'o, 'k) res \<Rightarrow> error \<times> nat + nat \<times> ('o, 'k) JasonBuilder" where
  "outcome r = (case r of Inl (e, p) \<Rightarrow> Inl (e, errorPos p) | Inr (n, p) \<Rightarrow> Inr (n, p_b p))"

text \<open>The builder as \<^verbatim>\<open>parse\<close> hands it to \<^verbatim>\<open>parseJson\<close>: cleared, with the parser's options.\<close>

definition freshBuilder ::
  "('d, 'o, 'k) env \<Rightarrow> ('o, 'k) JasonParser \<Rightarrow> ('o, 'k) JasonBuilder" where
  "freshBuilder env p = (clear (bops env) (p_b p))\<lparr>b_options := options p\<rparr>"

subsection \<open>An instance of the parameters\<close>

text \<open>
  To run the model on concrete inputs: an arithmetic that keeps no value (every double
  is \<open>()\<close>, never NaN, always finite) and a builder whose operations only record that
  they were called.
\<close>

datatype call = AddNull | AddTrue | AddFalse | AddUInt "64 word" | AddNegInt "64 word"
  | AddDouble | AddArray | AddObject | ReportAdd nat | Close

definition unitArith :: "unit fpu" where
  "unitArith = \<lparr>fromU64 = (\<lambda>_. ()), fromInt = (\<lambda>_. ()), point1 = (),
     fadd = (\<lambda>_ _. ()), fsub = (\<lambda>_ _. ()), fmul = (\<lambda>_ _. ()), fdiv = (\<lambda>_ _. ()),
     fneg = (\<lambda>_. ()), fpow = (\<lambda>_ _. ()), isnan = (\<lambda>_. False), isfinite = (\<lambda>_. True)\<rparr>"

definition logCall :: "call \<Rightarrow> (unit, call list) JasonBuilder \<Rightarrow> (unit, call list) JasonBuilder" where
  "logCall c b = b\<lparr>b_rest := b_rest b @ [c]\<rparr>"

definition loggingBuilder :: "(unit, unit, call list) JasonBuilderOps" where
  "loggingBuilder = \<lparr>addNull = logCall AddNull, addTrue = logCall AddTrue,
     addFalse = logCall AddFalse, addUInt = (\<lambda>v. logCall (AddUInt v)),
     addNegInt = (\<lambda>v. logCall (AddNegInt v)), addDouble = (\<lambda>_. logCall AddDouble),
     addArray = logCall AddArray, addObject = logCall AddObject,
     reportAdd = (\<lambda>base. logCall (ReportAdd base)), close = logCall Close,
     clearedRest = []\<rparr>"

definition demoEnv :: "bool \<Rightarrow> (unit, unit, call list) env" where
  "demoEnv v = \<lparr>arith = unitArith, bops = loggingBuilder, validateUtf8 = v\<rparr>"

text \<open>The parser as its constructor leaves it.\<close>

definition newParser :: "(unit, call list) JasonParser" where
  "newParser = \<lparr>p_b = \<lparr>b_start = [], b_options = (), b_rest = []\<rparr>,
     p_start = [], p_pos = 0, options = ()\<rparr>"

definition surrogatePair :: "byte list" where
  "surrogatePair =
     [0x22] @ bytes_of ([backslash] @ ''uD834'' @ [backslash] @ ''uDD1E'') @ [0x22]"

text \<open>
  The number that decimal digits denote, continuing from \<open>a\<close>; the two literals at the
  boundary of the unsigned 64-bit range.
\<close>

fun decimalFrom :: "int \<Rightarrow> byte list \<Rightarrow> int" where
  "decimalFrom a [] = a"
| "decimalFrom a (c # cs) = decimalFrom (a * 10 + (uint c - 48)) cs"

definition maxUInt64Literal :: "byte list" where
  "maxUInt64Literal = bytes_of ''18446744073709551615''"

definition overUInt64Literal :: "byte list" where
  "overUInt64Literal = bytes_of ''18446744073709551616''"

text \<open>
  What no call may do: throw the underflow of \<^verbatim>\<open>unconsume\<close>, run out of fuel, or
  leave the parser with other options than \<open>opts\<close>.
\<close>

definition hasOptions :: "'o \<Rightarrow> ('o, 'k) JasonParser \<Rightarrow> bool" where
  "hasOptions opts p \<longleftrightarrow> options p = opts"

definition ok :: "'o \<Rightarrow> ('a, 'o, 'k) res \<Rightarrow> bool" where
  "ok opts r =
     (case r of
        Inl (e, p) \<Rightarrow> e \<noteq> CursorUnderflow \<and> e \<noteq> FuelExhausted \<and> hasOptions opts p
      | Inr (x, p) \<Rightarrow> hasOptions opts p)"

text \<open>The parser object after a call, whether it threw or returned.\<close>

definition parserAfter :: "('a, 'o, 'k) res \<Rightarrow> ('o, 'k) JasonParser" where
  "parserAfter r = (case r of Inl (e, p) \<Rightarrow> p | Inr (x, p) \<Rightarrow> p)"




text \<open>
  \<open>writes p p'\<close>: \<open>p'\<close> differs from \<open>p\<close> at most in the read position and in the bytes
  of the buffer. \<open>app xs p p'\<close>: moreover the buffer of \<open>p'\<close> is that of \<open>p\<close> with \<open>xs\<close>
  appended.
\<close>

definition writes :: "('o, 'k) JasonParser \<Rightarrow> ('o, 'k) JasonParser \<Rightarrow> bool" where
  "writes p p' \<longleftrightarrow>
     p_start p' = p_start p \<and> options p' = options p \<and>
     b_options (p_b p') = b_options (p_b p) \<and> b_rest (p_b p') = b_rest (p_b p)"

definition app :: "byte list \<Rightarrow> ('o, 'k) JasonParser \<Rightarrow> ('o, 'k) JasonParser \<Rightarrow> bool" where
  "app xs p p' \<longleftrightarrow> writes p p' \<and> b_start (p_b p') = b_start (p_b p) @ xs"




section \<open>Evaluation\<close>

lemma andThen_Inl [simp]: "andThen (Inl e) f = Inl e"
  by (simp add: andThen_def)

lemma andThen_Inr [simp]: "andThen (Inr (x, p)) f = f x p"
  by (simp add: andThen_def)

lemma andThen_throw [simp]: "andThen (throw msg p) f = throw msg p"
  by (simp add: throw_def)

lemma andThen_weak_cong [cong]: "m = m' \<Longrightarrow> andThen m f = andThen m' f"
  by simp

lemmas parseJson_numeral = parseJson.simps(2) [of _ "pred_numeral k" for k, folded numeral_eq_Suc]

lemmas parseArrayLoop_numeral =
  parseArrayLoop.simps(2) [of _ "pred_numeral k" for k, folded numeral_eq_Suc]

lemmas parseObjectLoop_numeral =
  parseObjectLoop.simps(2) [of _ "pred_numeral k" for k, folded numeral_eq_Suc]

lemmas parseInternalLoop_numeral =
  parseInternalLoop.simps(2) [of _ _ _ "pred_numeral k" for k, folded numeral_eq_Suc]

lemmas scanHex_numeral = scanHex.simps(2) [of "pred_numeral k" for k, folded numeral_eq_Suc]

lemmas scanFollow_numeral = scanFollow.simps(2) [of "pred_numeral k" for k, folded numeral_eq_Suc]

lemmas run_top = parse_def parseInternal_def clear_def bytes_of_def skipWhiteSpace_def
  JSONSkipWhiteSpace_def isWhiteSpace_def consume_def unconsume_def getOneOrThrow_def
  throw_def build_def skipTrailing.simps Let_def outcome_def errorPos_def freshBuilder_def
  parseJson.simps parseArray.simps parseArrayLoop.simps parseObject.simps
  parseObjectLoop.simps parseInternalLoop.simps
  parseJson_numeral parseArrayLoop_numeral parseObjectLoop_numeral parseInternalLoop_numeral

lemmas run_number = parseNumber_def parseNumberFraction_def parseNumberExponent_def
  newParsedNumber_def addDigit_def addDigitDouble_def asDouble_def
  scanDigits.simps scanDigitsFractionalLoop.simps scanDigitsFractional_def

lemmas run_string = parseString_def parseStringLoop.simps parseStringIter_def
  stringFastCopy_def JSONStringCopy_def stringPromote_def stringClose_def writeLength_def
  stringSwitch_def stringEscape_def stringPlain_def putUnicode_def put_def
  backslash_def dquote_def scanHex_numeral scanFollow_numeral

lemmas run_demo = demoEnv_def unitArith_def loggingBuilder_def logCall_def newParser_def

section \<open>The claims\<close>

text \<open>
  C1. The claim: a number with an exponent part and no fraction, such as \<^verbatim>\<open>1e2\<close>, is
  accepted and emitted as a double. The code does otherwise: \<^verbatim>\<open>parseNumber\<close> returns
  after the integer part unless the next byte is a \<^verbatim>\<open>.\<close>, so \<^verbatim>\<open>1\<close> is emitted as an
  unsigned integer and the \<^verbatim>\<open>e\<close> is left over. Without \<^verbatim>\<open>multi\<close> the parse fails with
  "expecting EOF" at position 1; with \<^verbatim>\<open>multi\<close> the \<^verbatim>\<open>e\<close> is taken for the start of
  the next value and the parse fails with "value expected".
\<close>

theorem parse_exponent_without_fraction:
  "outcome (parse env (bytes_of ''1e2'') False p) = Inl (JasonParserError ''expecting EOF'', 1)
   \<and> outcome (parse env (bytes_of ''1e2'') True p) = Inl (JasonParserError ''value expected'', 1)"
  by (simp add: run_top run_number)

theorem parse_exponent_without_fraction_witness:
  "outcome (parse (demoEnv False) (bytes_of ''1e2'') False newParser)
     = Inl (JasonParserError ''expecting EOF'', 1)
   \<and> outcome (parse (demoEnv False) (bytes_of ''1e2'') True newParser)
     = Inl (JasonParserError ''value expected'', 1)"
  by (rule parse_exponent_without_fraction)



text \<open>
  C6. The claim: an unescaped byte \<open>10xxxxxx\<close> at the start of a character fails with
  "Illegal UTF-8 byte.". The code tests \<^verbatim>\<open>(i & 0xe0) == 0x80\<close>, which holds for
  \<open>0x80\<close> to \<open>0x9f\<close> only; a byte from \<open>0xa0\<close> to \<open>0xbf\<close> falls through to the last
  branch and fails with the message for 5- and 6-byte sequences.
\<close>

theorem parse_stray_continuation_byte:
  "outcome (parse env [0x22, 0xa0, 0x22] False p)
     = Inl (JasonParserError
              ''scanString: Illegal 5- or 6-byte sequence found in UTF-8 string.'', 1)
   \<and> outcome (parse env [0x22, 0x80, 0x22] False p)
     = Inl (JasonParserError ''scanString: Illegal UTF-8 byte.'', 1)"
  by (cases "validateUtf8 env") (simp_all add: run_top run_string)

theorem parse_stray_continuation_byte_witness:
  "outcome (parse (demoEnv True) [0x22, 0xa0, 0x22] False newParser)
     = Inl (JasonParserError
              ''scanString: Illegal 5- or 6-byte sequence found in UTF-8 string.'', 1)
   \<and> outcome (parse (demoEnv True) [0x22, 0x80, 0x22] False newParser)
     = Inl (JasonParserError ''scanString: Illegal UTF-8 byte.'', 1)"
  by (rule parse_stray_continuation_byte)

text \<open>
  C5. The string literal (\<open>surrogatePair\<close>) \<^verbatim>\<open>"\\uD834\\uDD1E"\<close>. The first turn of the string loop writes
  the high surrogate as the three bytes \<open>ED A0 B4\<close> and remembers it; the second turn
  takes them back and writes the code point \<open>0x1D11E\<close> as \<open>F0 9D 84 9E\<close>; the closing
  quote patches the tag to \<open>0x44\<close>.
\<close>

theorem parse_surrogate_pair:
  "parseStringIter env 0 False 0
       (p\<lparr>p_start := surrogatePair, p_pos := 1,
           p_b := (freshBuilder env p)\<lparr>b_start := [0x40]\<rparr>\<rparr>)
     = Inr (Some (False, 0xd834),
            p\<lparr>p_start := surrogatePair, p_pos := 7,
               p_b := (freshBuilder env p)\<lparr>b_start := [0x40, 0xed, 0xa0, 0xb4]\<rparr>\<rparr>)
   \<and> parseStringIter env 0 False 0xd834
       (p\<lparr>p_start := surrogatePair, p_pos := 7,
           p_b := (freshBuilder env p)\<lparr>b_start := [0x40, 0xed, 0xa0, 0xb4]\<rparr>\<rparr>)
     = Inr (Some (False, 0),
            p\<lparr>p_start := surrogatePair, p_pos := 13,
               p_b := (freshBuilder env p)\<lparr>b_start := [0x40, 0xf0, 0x9d, 0x84, 0x9e]\<rparr>\<rparr>)
   \<and> outcome (parse env surrogatePair False p)
     = Inr (1, (freshBuilder env p)\<lparr>b_start := [0x44, 0xf0, 0x9d, 0x84, 0x9e]\<rparr>)"
  by (cases "validateUtf8 env") (simp_all add: surrogatePair_def run_top run_string)

theorem parse_surrogate_pair_witness:
  "outcome (parse (demoEnv False) surrogatePair False newParser)
     = Inr (1, \<lparr>b_start = [0x44, 0xf0, 0x9d, 0x84, 0x9e], b_options = (), b_rest = []\<rparr>)"
  using parse_surrogate_pair [of "demoEnv False" newParser]
  by (simp add: run_demo freshBuilder_def clear_def)

text \<open>
  C2. The claim: a parse in multi-value mode of white space only (or of the empty input)
  returns 0. The loop of \<^verbatim>\<open>parseInternal\<close> is a \<^verbatim>\<open>do \<dots> while\<close>: \<^verbatim>\<open>parseJson\<close> runs at
  least once, and its \<^verbatim>\<open>skipWhiteSpace\<close> throws "expecting item" when the input is used up.
\<close>

theorem parse_empty_multi_counterexample:
  "outcome (parse (demoEnv False) [] True newParser)
     = Inl (JasonParserError ''expecting item'', 0)"
  by (simp add: run_top)

lemma parseInternalLoop_counts:
  "parseInternalLoop env multi vfuel fuel nr p = Inr (n, p') \<Longrightarrow> nr < n"
proof (induction fuel arbitrary: nr p)
  case 0
  then show ?case by (simp add: parseInternalLoop.simps)
next
  case (Suc fuel)
  from Suc.prems obtain q where
    "parseInternalLoop env multi vfuel fuel (nr + 1) (skipTrailing q) = Inr (n, p')
     \<or> (n = nr + 1)"
    by (auto simp: parseInternalLoop.simps andThen_def Let_def throw_def
             split: sum.splits prod.splits if_splits)
  then show ?case
    by (auto dest: Suc.IH)
qed

lemma skipWhiteSpace_all_white:
  assumes "\<forall>b \<in> set (drop (p_pos p) (p_start p)). isWhiteSpace b"
  shows "skipWhiteSpace err p = throw err (p\<lparr>p_pos := p_pos p + (p_size p - p_pos p)\<rparr>)"
proof -
  have tw: "takeWhile isWhiteSpace (drop (p_pos p) (p_start p)) = drop (p_pos p) (p_start p)"
    using assms by (simp add: takeWhile_eq_all_conv)
  have "JSONSkipWhiteSpace (drop (p_pos p) (p_start p)) (p_size p - p_pos p)
               = p_size p - p_pos p"
    by (simp add: JSONSkipWhiteSpace_def tw)
  then show ?thesis
    by (simp add: skipWhiteSpace_def Let_def)
qed

lemma parseInternal_no_bom:
  assumes "p_start p = [] \<or> p_start p ! 0 \<noteq> 0xef"
  shows "parseInternal env multi p =
           parseInternalLoop env multi (2 * p_size p + 1) (p_size p + 1) 0
             (p\<lparr>p_b := (p_b p)\<lparr>b_options := options p\<rparr>\<rparr>)"
  using assms by (auto simp: parseInternal_def Let_def)

text \<open>
  C2, as amended: on an input of white space only, \<^verbatim>\<open>parse\<close> fails with "expecting item",
  with either value of \<^verbatim>\<open>multi\<close>; \<^verbatim>\<open>errorPos\<close> is then the index of the last byte
  (0 for the empty input). And a parse that returns, returns at least 1.
\<close>

theorem parse_whitespace_only:
  "((\<forall>b \<in> set json. isWhiteSpace b) \<longrightarrow>
      outcome (parse env json multi p)
        = Inl (JasonParserError ''expecting item'', length json - 1))
   \<and> (parse env json multi p = Inr (n, p') \<longrightarrow> 1 \<le> n)"
proof
  show "(\<forall>b \<in> set json. isWhiteSpace b) \<longrightarrow>
     outcome (parse env json multi p)
       = Inl (JasonParserError ''expecting item'', length json - 1)"
  proof
    assume ws: "\<forall>b \<in> set json. isWhiteSpace b"
    have nobom: "json = [] \<or> json ! 0 \<noteq> 0xef"
    proof (cases json)
      case Nil
      then show ?thesis by simp
    next
      case (Cons b bs)
      with ws have "isWhiteSpace b" by simp
      with Cons show ?thesis by (auto simp: isWhiteSpace_def)
    qed
    let ?q = "p\<lparr>p_start := json, p_pos := 0, p_b := clear (bops env) (p_b p)\<rparr>"
    have "parse env json multi p =
            parseInternalLoop env multi (2 * length json + 1) (length json + 1) 0
              (?q\<lparr>p_b := (p_b ?q)\<lparr>b_options := options ?q\<rparr>\<rparr>)"
      unfolding parse_def using nobom by (subst parseInternal_no_bom) simp_all
    also have "\<dots> = throw ''expecting item''
              (?q\<lparr>p_b := (p_b ?q)\<lparr>b_options := options ?q\<rparr>, p_pos := length json\<rparr>)"
      using ws by (simp add: parseInternalLoop.simps parseJson.simps skipWhiteSpace_all_white)
    finally show "outcome (parse env json multi p)
       = Inl (JasonParserError ''expecting item'', length json - 1)"
      by (simp add: throw_def outcome_def errorPos_def)
  qed
  show "parse env json multi p = Inr (n, p') \<longrightarrow> 1 \<le> n"
    by (auto simp: parse_def parseInternal_def Let_def dest!: parseInternalLoop_counts)
qed

theorem parse_whitespace_only_witness:
  "isWhiteSpace 0x20 \<and> isWhiteSpace 0x0a
   \<and> outcome (parse (demoEnv False) [0x20, 0x0a] True newParser)
       = Inl (JasonParserError ''expecting item'', 1)
   \<and> parse (demoEnv False) (bytes_of ''7 8'') True newParser
       = Inr (2, newParser\<lparr>p_start := bytes_of ''7 8'', p_pos := 3,
                   p_b := \<lparr>b_start = [], b_options = (), b_rest = [AddUInt 7, AddUInt 8]\<rparr>\<rparr>)
   \<and> (1::nat) \<le> 2"
proof -
  have ws: "\<forall>b \<in> set [0x20, 0x0a :: byte]. isWhiteSpace b"
    by (simp add: isWhiteSpace_def)
  have run: "parse (demoEnv False) (bytes_of ''7 8'') True newParser
       = Inr (2, newParser\<lparr>p_start := bytes_of ''7 8'', p_pos := 3,
                   p_b := \<lparr>b_start = [], b_options = (), b_rest = [AddUInt 7, AddUInt 8]\<rparr>\<rparr>)"
    by (simp add: run_top run_number run_demo)
  from parse_whitespace_only [of "[0x20, 0x0a]" "demoEnv False" True newParser]
       parse_whitespace_only [of _ "demoEnv False" _ newParser, THEN conjunct2, rule_format, OF run]
       ws run
  show ?thesis by (simp add: isWhiteSpace_def)
qed

lemma threshold_no_overflow:
  fixes w :: "64 word" and d :: int
  assumes d: "0 \<le> d" "d \<le> 9"
  shows "(1844674407370955161 < w \<or> (w = 1844674407370955161 \<and> 5 < d))
           \<longleftrightarrow> 2 ^ 64 \<le> uint w * 10 + d"
proof -
  have "(1844674407370955161 < w) = (1844674407370955161 < uint w)"
    by (simp add: word_less_def)
  moreover have "(w = 1844674407370955161) = (uint w = 1844674407370955161)"
    by (simp add: word_uint_eq_iff)
  ultimately show ?thesis using d by auto
qed

lemma addDigit_exact:
  fixes w :: "64 word" and d :: int
  assumes "0 \<le> d" "uint w * 10 + d < 2 ^ 64"
  shows "uint (w * 10 + word_of_int d) = uint w * 10 + d"
proof -
  have "w * 10 + word_of_int d = word_of_int (uint w * 10 + d)"
    by simp
  moreover have "0 \<le> uint w * 10 + d" using assms by simp
  ultimately show ?thesis
    using assms by (simp only: uint_word_of_int_eq) (simp add: take_bit_int_eq_self)
qed

lemma addDigit_integer:
  assumes "isInteger n" "48 \<le> i" "i \<le> 57"
  shows "addDigit fp i n =
     (if 2 ^ 64 \<le> uint (intValue n) * 10 + (i - 48)
      then addDigitDouble fp i (n\<lparr>doubleValue := fromU64 fp (intValue n), isInteger := False\<rparr>)
      else Inr (n\<lparr>intValue := intValue n * 10 + word_of_int (i - 48)\<rparr>))"
proof -
  have "0 \<le> i - 48" "i - 48 \<le> 9" using assms by simp_all
  from threshold_no_overflow [OF this, of "intValue n"] assms(1)
  show ?thesis
    by (auto simp: addDigit_def word_le_less_eq not_less not_le)
qed

lemma addDigitDouble_not_integer:
  "addDigitDouble fp i n = Inr n' \<Longrightarrow> isInteger n' = isInteger n"
  by (auto simp: addDigitDouble_def Let_def split: if_splits)

lemma addDigit_stays_double:
  "\<not> isInteger n \<Longrightarrow> addDigit fp i n = Inr n' \<Longrightarrow> \<not> isInteger n'"
  by (auto simp: addDigit_def dest: addDigitDouble_not_integer)

lemma scanDigits_stays_double:
  "\<not> isInteger v \<Longrightarrow> scanDigits fp v p = Inr (v', p') \<Longrightarrow> \<not> isInteger v'"
proof (induction fp v p rule: scanDigits.induct)
  case (1 fp v p)
  obtain i q where c: "consume p = (i, q)" by (cases "consume p")
  show ?case
  proof (cases "i < 0 \<or> i < 48 \<or> i > 57")
    case True
    with "1.prems" c show ?thesis
      by (subst (asm) scanDigits.simps)
         (auto simp: andThen_def unconsume_def split: if_splits)
  next
    case False
    with "1.prems"(2) c obtain w where a: "addDigit fp i v = Inr w"
      and s: "scanDigits fp w q = Inr (v', p')"
      by (subst (asm) scanDigits.simps) (auto split: sum.splits)
    from addDigit_stays_double [OF "1.prems"(1) a] have "\<not> isInteger w" .
    with "1.IH" [OF c [symmetric] _ _ a] False s show ?thesis by auto
  qed
qed

lemma decimalFrom_mono: "(\<forall>c \<in> set cs. 48 \<le> uint c) \<Longrightarrow> 0 \<le> a \<Longrightarrow> a \<le> decimalFrom a cs"
proof (induction cs arbitrary: a)
  case Nil
  then show ?case by simp
next
  case (Cons c cs)
  then have "a * 10 + (uint c - 48) \<le> decimalFrom (a * 10 + (uint c - 48)) cs"
    by (intro Cons.IH) auto
  moreover have "a \<le> a * 10 + (uint c - 48)" using Cons.prems by auto
  ultimately show ?case by simp
qed

lemma drop_eq_ConsD:
  assumes "drop n xs = c # cs"
  shows "n < length xs \<and> xs ! n = c \<and> drop (Suc n) xs = cs"
proof -
  from assms have n: "n < length xs" by (cases "n < length xs") simp_all
  with assms Cons_nth_drop_Suc [OF n] show ?thesis by simp
qed

lemma scanDigits_integer:
  assumes "isInteger v"
    and "drop (p_pos p) (p_start p) = cs"
    and "\<forall>c \<in> set cs. 48 \<le> uint c \<and> uint c \<le> 57"
  shows "if decimalFrom (uint (intValue v)) cs < 2 ^ 64
         then scanDigits fp v p =
                Inr (v\<lparr>intValue := word_of_int (decimalFrom (uint (intValue v)) cs)\<rparr>,
                     p\<lparr>p_pos := p_pos p + length cs\<rparr>)
         else \<forall>v' p'. scanDigits fp v p = Inr (v', p') \<longrightarrow> \<not> isInteger v'"
  using assms
proof (induction cs arbitrary: v p)
  case Nil
  then have "consume p = (- 1, p)" by (simp add: consume_def)
  then have "scanDigits fp v p = Inr (v, p)" by (subst scanDigits.simps) simp
  moreover have "uint (intValue v) < 2 ^ 64" using uint_lt2p [of "intValue v"] by simp
  ultimately show ?case by simp
next
  case (Cons c cs)
  let ?q = "p\<lparr>p_pos := Suc (p_pos p)\<rparr>"
  let ?i = "uint c"
  from Cons.prems(2) have lt: "p_pos p < p_size p" and c: "p_start p ! p_pos p = c"
    and rest: "drop (p_pos ?q) (p_start ?q) = cs"
    by (auto dest: drop_eq_ConsD)
  then have con: "consume p = (?i, ?q)" by (simp add: consume_def)
  from Cons.prems(3) have dig: "48 \<le> ?i" "?i \<le> 57" and digs: "\<forall>c \<in> set cs. 48 \<le> uint c \<and> uint c \<le> 57"
    by simp_all
  have unf: "scanDigits fp v p =
               (case addDigit fp ?i v of Inl e \<Rightarrow> Inl (e, ?q) | Inr v' \<Rightarrow> scanDigits fp v' ?q)"
    using con dig by (subst scanDigits.simps) simp
  let ?a = "uint (intValue v) * 10 + (?i - 48)"
  show ?case
  proof (cases "2 ^ 64 \<le> ?a")
    case True
    have "?a \<le> decimalFrom ?a cs"
      using digs dig by (intro decimalFrom_mono) auto
    with True have big: "\<not> decimalFrom (uint (intValue v)) (c # cs) < 2 ^ 64" by simp
    have "\<forall>v' p'. scanDigits fp v p = Inr (v', p') \<longrightarrow> \<not> isInteger v'"
    proof (intro allI impI)
      fix v' p'
      assume r: "scanDigits fp v p = Inr (v', p')"
      with unf obtain w where w: "addDigit fp ?i v = Inr w" and s: "scanDigits fp w ?q = Inr (v', p')"
        by (auto split: sum.splits)
      from w True addDigit_integer [OF Cons.prems(1) dig, of fp]
      have "\<not> isInteger w" by (auto dest: addDigitDouble_not_integer)
      from scanDigits_stays_double [OF this s] show "\<not> isInteger v'" .
    qed
    with big show ?thesis by simp
  next
    case False
    let ?w = "v\<lparr>intValue := intValue v * 10 + word_of_int (?i - 48)\<rparr>"
    from False addDigit_integer [OF Cons.prems(1) dig, of fp]
    have ad: "addDigit fp ?i v = Inr ?w" by simp
    have ex: "uint (intValue ?w) = ?a"
      using False dig addDigit_exact [where d = "uint c - 48" and w = "intValue v"] by simp
    have "isInteger ?w" using Cons.prems(1) by simp
    from Cons.IH [OF this rest digs] ex unf ad
    show ?thesis by (auto simp: add.assoc)
  qed
qed

text \<open>
  C3. While the accumulator is an integer, \<^verbatim>\<open>addDigit\<close> leaves it one for a digit \<open>d\<close>
  exactly when the value \<open>v\<close> is below \<open>1844674407370955161\<close>, or equal to it with
  \<open>d \<le> 5\<close>; the new value is then \<open>10 v + d\<close> without wrap-around. Otherwise the
  value is converted to a double and the digit is added there. So a sequence of digits
  is read as an integer exactly when the number it denotes is below \<open>2^64\<close>:
  \<^verbatim>\<open>18446744073709551615\<close> is passed to \<^verbatim>\<open>addUInt\<close>, \<^verbatim>\<open>18446744073709551616\<close> to
  \<^verbatim>\<open>addDouble\<close> (as \<open>1844674407370955161 * 10.0 + 6\<close>, provided the arithmetic calls that
  finite).
\<close>

theorem addDigit_promotes_exactly_on_overflow:
  "(48 \<le> i \<and> i \<le> 57 \<and> isInteger n \<longrightarrow>
      (if 1844674407370955161 < intValue n \<or> (intValue n = 1844674407370955161 \<and> 5 < i - 48)
       then addDigit fp i n =
              addDigitDouble fp i (n\<lparr>doubleValue := fromU64 fp (intValue n), isInteger := False\<rparr>)
            \<and> (\<forall>n'. addDigit fp i n = Inr n' \<longrightarrow> \<not> isInteger n')
       else addDigit fp i n = Inr (n\<lparr>intValue := intValue n * 10 + word_of_int (i - 48)\<rparr>)
            \<and> uint (intValue n * 10 + word_of_int (i - 48)) = uint (intValue n) * 10 + (i - 48)))
   \<and> ((\<forall>c \<in> set cs. 48 \<le> uint c \<and> uint c \<le> 57) \<longrightarrow>
        (if decimalFrom 0 cs < 2 ^ 64
         then scanDigits fp (newParsedNumber fp) (p\<lparr>p_start := cs, p_pos := 0\<rparr>)
                = Inr ((newParsedNumber fp)\<lparr>intValue := word_of_int (decimalFrom 0 cs)\<rparr>,
                       p\<lparr>p_start := cs, p_pos := length cs\<rparr>)
         else \<forall>v' p'. scanDigits fp (newParsedNumber fp) (p\<lparr>p_start := cs, p_pos := 0\<rparr>)
                         = Inr (v', p') \<longrightarrow> \<not> isInteger v'))
   \<and> outcome (parse env maxUInt64Literal False q)
       = Inr (1, addUInt (bops env) 18446744073709551615 (freshBuilder env q))
   \<and> outcome (parse env overUInt64Literal False q)
       = (let d = fadd (arith env)
                    (fmul (arith env) (fromU64 (arith env) 1844674407370955161)
                       (fromInt (arith env) 10))
                    (fromInt (arith env) 6)
          in if isnan (arith env) d \<or> \<not> isfinite (arith env) d
             then Inl (JasonParserError ''numeric value out of bounds'', 19)
             else Inr (1, addDouble (bops env) d (freshBuilder env q)))"
proof (intro conjI impI)
  assume a: "48 \<le> i \<and> i \<le> 57 \<and> isInteger n"
  then have d: "0 \<le> i - 48" "i - 48 \<le> 9" by simp_all
  from a have ad: "addDigit fp i n =
     (if 2 ^ 64 \<le> uint (intValue n) * 10 + (i - 48)
      then addDigitDouble fp i (n\<lparr>doubleValue := fromU64 fp (intValue n), isInteger := False\<rparr>)
      else Inr (n\<lparr>intValue := intValue n * 10 + word_of_int (i - 48)\<rparr>))"
    by (intro addDigit_integer) simp_all
  show "if 1844674407370955161 < intValue n \<or> (intValue n = 1844674407370955161 \<and> 5 < i - 48)
       then addDigit fp i n =
              addDigitDouble fp i (n\<lparr>doubleValue := fromU64 fp (intValue n), isInteger := False\<rparr>)
            \<and> (\<forall>n'. addDigit fp i n = Inr n' \<longrightarrow> \<not> isInteger n')
       else addDigit fp i n = Inr (n\<lparr>intValue := intValue n * 10 + word_of_int (i - 48)\<rparr>)
            \<and> uint (intValue n * 10 + word_of_int (i - 48)) = uint (intValue n) * 10 + (i - 48)"
  proof (cases "2 ^ 64 \<le> uint (intValue n) * 10 + (i - 48)")
    case True
    with threshold_no_overflow [OF d, of "intValue n"] ad show ?thesis
      by (auto dest: addDigitDouble_not_integer)
  next
    case False
    with threshold_no_overflow [OF d, of "intValue n"] ad
         addDigit_exact [where d = "i - 48" and w = "intValue n"] d
    show ?thesis by auto
  qed
next
  assume digs: "\<forall>c \<in> set cs. 48 \<le> uint c \<and> uint c \<le> 57"
  let ?p = "p\<lparr>p_start := cs, p_pos := 0\<rparr>"
  have "isInteger (newParsedNumber fp)" and z: "uint (intValue (newParsedNumber fp)) = 0"
    by (simp_all add: newParsedNumber_def)
  from scanDigits_integer [OF this(1) _ digs, of ?p fp] z
  show "if decimalFrom 0 cs < 2 ^ 64
         then scanDigits fp (newParsedNumber fp) ?p
                = Inr ((newParsedNumber fp)\<lparr>intValue := word_of_int (decimalFrom 0 cs)\<rparr>,
                       p\<lparr>p_start := cs, p_pos := length cs\<rparr>)
         else \<forall>v' p'. scanDigits fp (newParsedNumber fp) ?p = Inr (v', p') \<longrightarrow> \<not> isInteger v'"
    by simp
next
  show "outcome (parse env maxUInt64Literal False q)
       = Inr (1, addUInt (bops env) 18446744073709551615 (freshBuilder env q))"
    by (simp add: maxUInt64Literal_def run_top run_number)
next
  show "outcome (parse env overUInt64Literal False q)
       = (let d = fadd (arith env)
                    (fmul (arith env) (fromU64 (arith env) 1844674407370955161)
                       (fromInt (arith env) 10))
                    (fromInt (arith env) 6)
          in if isnan (arith env) d \<or> \<not> isfinite (arith env) d
             then Inl (JasonParserError ''numeric value out of bounds'', 19)
             else Inr (1, addDouble (bops env) d (freshBuilder env q)))"
    by (simp add: overUInt64Literal_def run_top run_number)
qed

theorem addDigit_promotes_exactly_on_overflow_witness:
  "addDigit unitArith 53 \<lparr>intValue = 1844674407370955161, doubleValue = (), isInteger = True\<rparr>
     = Inr \<lparr>intValue = 18446744073709551615, doubleValue = (), isInteger = True\<rparr>
   \<and> addDigit unitArith 54 \<lparr>intValue = 1844674407370955161, doubleValue = (), isInteger = True\<rparr>
     = Inr \<lparr>intValue = 1844674407370955161, doubleValue = (), isInteger = False\<rparr>
   \<and> decimalFrom 0 (bytes_of ''256'') = 256
   \<and> scanDigits unitArith (newParsedNumber unitArith) (newParser\<lparr>p_start := bytes_of ''256''\<rparr>)
     = Inr (\<lparr>intValue = 256, doubleValue = (), isInteger = True\<rparr>,
            newParser\<lparr>p_start := bytes_of ''256'', p_pos := 3\<rparr>)
   \<and> outcome (parse (demoEnv False) maxUInt64Literal False newParser)
     = Inr (1, \<lparr>b_start = [], b_options = (), b_rest = [AddUInt 18446744073709551615]\<rparr>)
   \<and> outcome (parse (demoEnv False) overUInt64Literal False newParser)
     = Inr (1, \<lparr>b_start = [], b_options = (), b_rest = [AddDouble]\<rparr>)"
  using addDigit_promotes_exactly_on_overflow
          [of 53 "\<lparr>intValue = 1844674407370955161, doubleValue = (), isInteger = True\<rparr>"
              unitArith "bytes_of ''256''" newParser "demoEnv False" newParser]
        addDigit_promotes_exactly_on_overflow
          [of 54 "\<lparr>intValue = 1844674407370955161, doubleValue = (), isInteger = True\<rparr>"
              unitArith "bytes_of ''256''" newParser "demoEnv False" newParser]
  by (simp add: run_demo freshBuilder_def clear_def bytes_of_def newParsedNumber_def
           addDigitDouble_def)

section \<open>No underflow of the read position, fuel enough, and the options stay\<close>

subsection \<open>The calls below a value\<close>

lemma hasOptions_updates [simp]:
  "hasOptions opts (p\<lparr>p_pos := n\<rparr>) = hasOptions opts p"
  "hasOptions opts (p\<lparr>p_b := b\<rparr>) = hasOptions opts p"
  "hasOptions opts (p\<lparr>p_start := s\<rparr>) = hasOptions opts p"
  by (simp_all add: hasOptions_def)

lemma ok_Inr [simp]: "ok opts (Inr (x, p)) = hasOptions opts p"
  by (simp add: ok_def)

lemma ok_throw [simp]: "ok opts (throw msg p) = hasOptions opts p"
  by (simp add: ok_def throw_def)

lemma ok_andThen:
  assumes "ok opts m" and "\<And>x q. m = Inr (x, q) \<Longrightarrow> hasOptions opts q \<Longrightarrow> ok opts (f x q)"
  shows "ok opts (andThen m f)"
  using assms by (cases m) (auto simp: ok_def andThen_def)

lemma ok_build [simp]: "ok opts (build f p) = hasOptions opts p"
  by (simp add: build_def)

lemma options_put [simp]: "hasOptions opts (put x p) = hasOptions opts p"
  by (simp add: put_def)

lemma consume_options: "consume p = (i, q) \<Longrightarrow> hasOptions opts q = hasOptions opts p"
  by (auto simp: consume_def split: if_splits)

lemma consume_unconsume: "consume p = (i, q) \<Longrightarrow> 0 \<le> i \<Longrightarrow> unconsume q = Inr ((), p)"
  by (auto simp: consume_def unconsume_def split: if_splits)

lemma ok_getOneOrThrow: "hasOptions opts p \<Longrightarrow> ok opts (getOneOrThrow msg p)"
  by (auto simp: getOneOrThrow_def consume_def)

lemma getOneOrThrow_unconsume:
  "getOneOrThrow msg p = Inr (i, q) \<Longrightarrow> unconsume q = Inr ((), p)"
  by (auto simp: getOneOrThrow_def consume_def unconsume_def throw_def split: if_splits)

lemma ok_skipWhiteSpace: "hasOptions opts p \<Longrightarrow> ok opts (skipWhiteSpace err p)"
  by (simp add: skipWhiteSpace_def Let_def)

lemma ok_scanDigits: "hasOptions opts p \<Longrightarrow> ok opts (scanDigits fp v p)"
proof (induction fp v p rule: scanDigits.induct)
  case (1 fp v p)
  obtain i q where c: "consume p = (i, q)" by (cases "consume p")
  note o = consume_options [OF c] "1.prems"
  show ?case
  proof (cases "i < 0 \<or> i < 48 \<or> i > 57")
    case True
    with c o consume_unconsume [OF c] show ?thesis
      by (subst scanDigits.simps) auto
  next
    case False
    show ?thesis
    proof (cases "addDigit fp i v")
      case (Inl e)
      then have "e \<noteq> CursorUnderflow \<and> e \<noteq> FuelExhausted"
        by (auto simp: addDigit_def addDigitDouble_def Let_def split: if_splits)
      with Inl c False o show ?thesis
        by (subst scanDigits.simps) (simp add: ok_def)
    next
      case (Inr w)
      with "1.IH" [OF c [symmetric] _ _ Inr] False o c show ?thesis
        by (subst scanDigits.simps) simp
    qed
  qed
qed

lemma ok_scanDigitsFractionalLoop:
  "hasOptions opts p \<Longrightarrow> ok opts (scanDigitsFractionalLoop fp pot x p)"
proof (induction fp pot x p rule: scanDigitsFractionalLoop.induct)
  case (1 fp pot x p)
  obtain i q where c: "consume p = (i, q)" by (cases "consume p")
  note o = consume_options [OF c] "1.prems"
  show ?case
  proof (cases "i < 0 \<or> i < 48 \<or> i > 57")
    case True
    with c o consume_unconsume [OF c] show ?thesis
      by (subst scanDigitsFractionalLoop.simps) auto
  next
    case False
    with "1.IH" [OF c [symmetric]] o c show ?thesis
      by (subst scanDigitsFractionalLoop.simps) simp
  qed
qed

lemma ok_unconsume [simp]: "ok opts (unconsume p) = (hasOptions opts p \<and> 0 < p_pos p)"
  by (auto simp: unconsume_def ok_def)

lemmas ok_unfold = getOneOrThrow_def consume_def Let_def

lemma ok_parseNumberExponent:
  "hasOptions opts p \<Longrightarrow> ok opts (parseNumberExponent env x p)"
  unfolding parseNumberExponent_def
  by (auto intro!: ok_andThen ok_scanDigits simp: ok_unfold split: if_splits)

lemma ok_parseNumberFraction:
  "hasOptions opts p \<Longrightarrow> ok opts (parseNumberFraction env v negative p)"
  unfolding parseNumberFraction_def scanDigitsFractional_def
  by (auto intro!: ok_andThen ok_scanDigitsFractionalLoop ok_parseNumberExponent
           simp: ok_unfold split: if_splits)

lemma ok_parseNumber: "hasOptions opts p \<Longrightarrow> ok opts (parseNumber env p)"
  unfolding parseNumber_def
  by (auto intro!: ok_andThen ok_scanDigits ok_parseNumberFraction
           simp: ok_unfold split: if_splits)

lemma ok_literals:
  assumes "hasOptions opts p"
  shows "ok opts (parseTrue env p)" and "ok opts (parseFalse env p)" and "ok opts (parseNull env p)"
  using assms
  by (auto simp: parseTrue_def parseFalse_def parseNull_def consume_def split: if_splits)

lemma ok_scanHex: "hasOptions opts p \<Longrightarrow> ok opts (scanHex j v p)"
  by (induction j arbitrary: v p) (auto simp: consume_def)

lemma ok_scanFollow: "hasOptions opts p \<Longrightarrow> ok opts (scanFollow j p)"
  by (induction j arbitrary: p) (auto intro!: ok_andThen simp: ok_unfold)

lemma options_putUnicode:
  "putUnicode v h p = (h', p') \<Longrightarrow> hasOptions opts p \<Longrightarrow> hasOptions opts p'"
  by (auto simp: putUnicode_def Let_def split: if_splits)

lemma ok_stringEscape: "hasOptions opts p \<Longrightarrow> ok opts (stringEscape h p)"
  unfolding stringEscape_def
  by (auto intro!: ok_andThen ok_scanHex simp: consume_def intro: options_putUnicode
           split: if_splits prod.splits)

lemma ok_stringPlain: "hasOptions opts p \<Longrightarrow> ok opts (stringPlain i p)"
  unfolding stringPlain_def
  by (auto intro!: ok_andThen ok_scanFollow simp del: scanFollow.simps split: if_splits)

lemma options_stringClose [simp]:
  "hasOptions opts (stringClose base large p) = hasOptions opts p"
  by (simp add: stringClose_def Let_def)

lemma ok_stringSwitch: "hasOptions opts p \<Longrightarrow> ok opts (stringSwitch base large h i p)"
  by (simp add: stringSwitch_def ok_stringEscape ok_stringPlain)

lemma options_stringPromote:
  "stringPromote base large p = (l, p') \<Longrightarrow> hasOptions opts p \<Longrightarrow> hasOptions opts p'"
  by (auto simp: stringPromote_def split: if_splits)

lemma options_stringFastCopy [simp]:
  "hasOptions opts (stringFastCopy p) = hasOptions opts p"
  by (simp add: stringFastCopy_def Let_def)

lemma ok_parseStringIter:
  "hasOptions opts p \<Longrightarrow> ok opts (parseStringIter env base large h p)"
  unfolding parseStringIter_def
  by (auto intro!: ok_andThen ok_getOneOrThrow ok_stringSwitch
           intro: options_stringPromote split: option.splits prod.splits)

lemma ok_parseStringLoop:
  "hasOptions opts p \<Longrightarrow> ok opts (parseStringLoop env base large h p)"
proof (induction env base large h p rule: parseStringLoop.induct)
  case (1 env base large h p)
  note it = ok_parseStringIter [OF "1.prems", of env base large h]
  show ?case
  proof (cases "parseStringIter env base large h p")
    case (Inl e)
    with it show ?thesis by (subst parseStringLoop.simps) (simp add: ok_def)
  next
    case (Inr r)
    obtain x p' where r: "r = (x, p')" by (cases r)
    with it Inr have o: "hasOptions opts p'" by simp
    show ?thesis
    proof (cases x)
      case None
      with Inr r o show ?thesis by (subst parseStringLoop.simps) simp
    next
      case (Some st)
      obtain l' h' where st: "st = (l', h')" by (cases st)
      from "1.IH" [OF Inr r [symmetric] Some st [symmetric] o] Inr r Some st
      show ?thesis by (subst parseStringLoop.simps) simp
    qed
  qed
qed

lemma ok_parseString: "hasOptions opts p \<Longrightarrow> ok opts (parseString env p)"
  by (simp add: parseString_def Let_def ok_parseStringLoop)

subsection \<open>Every value reads at least one byte\<close>

text \<open>
  A call that returns leaves the input as it was and the read position no further back;
  \<^verbatim>\<open>parseNumber\<close>, \<^verbatim>\<open>parseString\<close> and \<^verbatim>\<open>parseJson\<close> have then read at least one byte.
\<close>

lemma advances_pos [simp]: "advances p (q\<lparr>p_b := b\<rparr>) = advances p q"
  by (simp add: advances_def)

lemma skipWhiteSpace_advances:
  "skipWhiteSpace err p = Inr (i, q) \<Longrightarrow> advances p q \<and> p_pos q < p_size q"
  by (auto simp: skipWhiteSpace_def Let_def throw_def advances_def split: if_splits)

lemma literals_advance:
  "parseTrue env p = Inr (u, q) \<Longrightarrow> advances p q"
  "parseFalse env p = Inr (u, q) \<Longrightarrow> advances p q"
  "parseNull env p = Inr (u, q) \<Longrightarrow> advances p q"
  by (auto simp: parseTrue_def parseFalse_def parseNull_def consume_def throw_def build_def
        advances_def split: if_splits)

lemma scanDigits_advances: "scanDigits fp v p = Inr (v', q) \<Longrightarrow> advances p q"
proof (induction fp v p rule: scanDigits.induct)
  case (1 fp v p)
  obtain i p1 where c: "consume p = (i, p1)" by (cases "consume p")
  show ?case
  proof (cases "i < 0 \<or> i < 48 \<or> i > 57")
    case True
    with "1.prems" c show ?thesis
      by (subst (asm) scanDigits.simps)
         (auto simp: consume_def unconsume_def advances_def split: if_splits)
  next
    case False
    with "1.prems" c obtain w where a: "addDigit fp i v = Inr w"
      and s: "scanDigits fp w p1 = Inr (v', q)"
      by (subst (asm) scanDigits.simps) (auto split: sum.splits)
    from "1.IH" [OF c [symmetric] _ _ a] False s have "advances p1 q" by auto
    with consume_advances [OF c] show ?thesis by (rule advances_trans)
  qed
qed

lemma scanDigits_progress:
  assumes "scanDigits fp v p = Inr (v', q)"
    and "p_pos p < p_size p" and "48 \<le> uint (p_start p ! p_pos p)"
    and "uint (p_start p ! p_pos p) \<le> 57"
  shows "p_start q = p_start p \<and> p_pos p < p_pos q"
proof -
  let ?p1 = "p\<lparr>p_pos := Suc (p_pos p)\<rparr>"
  from assms(2) have c: "consume p = (uint (p_start p ! p_pos p), ?p1)"
    by (simp add: consume_def)
  with assms obtain w where "scanDigits fp w ?p1 = Inr (v', q)"
    by (subst (asm) scanDigits.simps) (auto split: sum.splits)
  from scanDigits_advances [OF this] show ?thesis by (simp add: advances_def)
qed

lemma scanDigitsFractionalLoop_advances:
  "scanDigitsFractionalLoop fp pot x p = Inr (y, q) \<Longrightarrow> advances p q"
proof (induction fp pot x p rule: scanDigitsFractionalLoop.induct)
  case (1 fp pot x p)
  obtain i p1 where c: "consume p = (i, p1)" by (cases "consume p")
  show ?case
  proof (cases "i < 0 \<or> i < 48 \<or> i > 57")
    case True
    with "1.prems" c show ?thesis
      by (subst (asm) scanDigitsFractionalLoop.simps)
         (auto simp: consume_def unconsume_def advances_def split: if_splits)
  next
    case False
    with "1.prems" c have s: "scanDigitsFractionalLoop fp (fdiv fp pot (fromInt fp 10))
        (fadd fp x (fmul fp pot (fromInt fp (i - 48)))) p1 = Inr (y, q)"
      by (subst (asm) scanDigitsFractionalLoop.simps) auto
    from "1.IH" [OF c [symmetric] _ _ s] False have "advances p1 q" by auto
    with consume_advances [OF c] show ?thesis by (rule advances_trans)
  qed
qed

lemma andThen_Inr_iff:
  "andThen m f = Inr r \<longleftrightarrow> (\<exists>x q. m = Inr (x, q) \<and> f x q = Inr r)"
  by (cases m) (auto simp: andThen_def)

lemma parseNumberExponent_advances:
  "parseNumberExponent env x p = Inr (u, q) \<Longrightarrow> advances p q"
  unfolding parseNumberExponent_def
  by (auto simp: andThen_Inr_iff getOneOrThrow_def consume_def unconsume_def throw_def
        build_def Let_def advances_def
      dest!: scanDigits_advances split: if_splits)

lemma parseNumberFraction_advances:
  "parseNumberFraction env v negative p = Inr (u, q) \<Longrightarrow> advances p q"
  unfolding parseNumberFraction_def scanDigitsFractional_def
  by (auto simp: andThen_Inr_iff getOneOrThrow_def consume_def unconsume_def throw_def
        build_def Let_def advances_def
      dest!: scanDigitsFractionalLoop_advances parseNumberExponent_advances
      split: if_splits)

lemma consume_progress:
  "consume p = (i, q) \<Longrightarrow> 0 \<le> i \<Longrightarrow> p_start q = p_start p \<and> p_pos q = Suc (p_pos p) \<and> p_pos p < p_size p"
  by (auto simp: consume_def split: if_splits)

lemma scanDigits_after_unconsume:
  assumes c: "consume p = (i, p1)" and d: "48 \<le> i" "i \<le> 57"
    and s: "andThen (unconsume p1) (\<lambda>_ p. scanDigits fp v p) = Inr (v', q)"
  shows "advances p1 q"
proof -
  from d have "0 \<le> i" by simp
  note cu = consume_unconsume [OF c this] and cp = consume_progress [OF c this]
  from s cu have sd: "scanDigits fp v p = Inr (v', q)" by simp
  from c cp have "uint (p_start p ! p_pos p) = i" by (auto simp: consume_def)
  with scanDigits_progress [OF sd] cp d show ?thesis by (auto simp: advances_def)
qed

lemma number_tail_advances:
  assumes "(case consume p of (i, p) \<Rightarrow>
        if i < 0 \<or> i \<noteq> 46 then
          andThen (if i \<ge> 0 then unconsume p else Inr ((), p)) (\<lambda>_ p.
          if \<not> isInteger numberValue
          then build (addDouble (bops env) (doubleValue numberValue)) p
          else if negative
               then build (addNegInt (bops env) (intValue numberValue)) p
               else build (addUInt (bops env) (intValue numberValue)) p)
        else parseNumberFraction env numberValue negative p) = Inr (u, q)"
  shows "advances p q"
proof -
  obtain k p4 where c: "consume p = (k, p4)" by (cases "consume p")
  show ?thesis
  proof (cases "k < 0 \<or> k \<noteq> 46")
    case True
    with assms c show ?thesis
      by (auto simp: consume_def unconsume_def build_def advances_def split: if_splits)
  next
    case False
    with assms c have "parseNumberFraction env numberValue negative p4 = Inr (u, q)" by simp
    from advances_trans [OF consume_advances [OF c] parseNumberFraction_advances [OF this]]
    show ?thesis .
  qed
qed

lemma parseNumber_progress:
  assumes "parseNumber env p = Inr (u, q)"
  shows "p_start q = p_start p \<and> p_pos p < p_pos q \<and> p_pos p < p_size p"
proof -
  obtain i p1 where c: "consume p = (i, p1)" by (cases "consume p")
  let ?A = "if i = 45 then andThen (getOneOrThrow ''scanNumber: incomplete number'' p1)
                             (\<lambda>i' p. Inr ((i', True), p))
            else Inr ((i, False), p1)"
  from assms c obtain x p2 where a: "?A = Inr (x, p2)"
    and b: "(case x of (i, negative) \<Rightarrow> \<lambda>p.
      if i < 48 \<or> i > 57 then throw ''value expected'' p else
      andThen (if i \<noteq> 48
               then andThen (unconsume p) (\<lambda>_ p. scanDigits (arith env) (newParsedNumber (arith env)) p)
               else Inr (newParsedNumber (arith env), p)) (\<lambda>numberValue p.
      case consume p of (i, p) \<Rightarrow>
        if i < 0 \<or> i \<noteq> 46 then
          andThen (if i \<ge> 0 then unconsume p else Inr ((), p)) (\<lambda>_ p.
          if \<not> isInteger numberValue
          then build (addDouble (bops env) (doubleValue numberValue)) p
          else if negative
               then build (addNegInt (bops env) (intValue numberValue)) p
               else build (addUInt (bops env) (intValue numberValue)) p)
        else parseNumberFraction env numberValue negative p)) p2 = Inr (u, q)"
    unfolding parseNumber_def by (auto simp: andThen_Inr_iff)
  obtain j neg where x: "x = (j, neg)" by (cases x)
  from b x have dig: "48 \<le> j" "j \<le> 57"
    by (auto simp: throw_def split: if_splits)
  from a x dig obtain p0 where c2: "consume p0 = (j, p2)" and i0: "0 \<le> i" and a2: "advances p1 p0 \<or> p0 = p"
    using c
    by (auto simp: andThen_Inr_iff getOneOrThrow_def throw_def split: if_splits prod.splits)
  from b x dig obtain nv p3 where
    cc: "(if j \<noteq> 48
               then andThen (unconsume p2) (\<lambda>_ p. scanDigits (arith env) (newParsedNumber (arith env)) p)
               else Inr (newParsedNumber (arith env), p2)) = Inr (nv, p3)"
    and dd: "(case consume p3 of (i, p) \<Rightarrow>
        if i < 0 \<or> i \<noteq> 46 then
          andThen (if i \<ge> 0 then unconsume p else Inr ((), p)) (\<lambda>_ p.
          if \<not> isInteger nv
          then build (addDouble (bops env) (doubleValue nv)) p
          else if neg
               then build (addNegInt (bops env) (intValue nv)) p
               else build (addUInt (bops env) (intValue nv)) p)
        else parseNumberFraction env nv neg p) = Inr (u, q)"
    by (auto simp: andThen_Inr_iff)
  from cc have a3: "advances p2 p3"
    using scanDigits_after_unconsume [OF c2 dig] by (auto split: if_splits)
  note a4 = number_tail_advances [OF dd]
  from dig have "0 \<le> j" by simp
  note p02 = consume_progress [OF c2 this]
  note p1 = consume_progress [OF c i0]
  from a2 p02 p1 a3 a4 show ?thesis
    by (auto simp: advances_def)
qed

lemma parseStringLoop_progress:
  "parseStringLoop env base large h p = Inr (u, q)
   \<Longrightarrow> p_start q = p_start p \<and> p_pos p < p_pos q \<and> p_pos p < p_size p"
proof (induction env base large h p rule: parseStringLoop.induct)
  case (1 env base large h p)
  from "1.prems" obtain r p1 where it: "parseStringIter env base large h p = Inr (r, p1)"
    by (subst (asm) parseStringLoop.simps) (auto split: sum.splits)
  note step = parseStringIter_progress [OF it]
  show ?case
  proof (cases r)
    case None
    with it "1.prems" have "q = p1"
      by (subst (asm) parseStringLoop.simps) simp
    with step show ?thesis by simp
  next
    case (Some st)
    obtain l' h' where st: "st = (l', h')" by (cases st)
    with it Some "1.prems" have "parseStringLoop env base l' h' p1 = Inr (u, q)"
      by (subst (asm) parseStringLoop.simps) simp
    from "1.IH" [OF it refl Some st [symmetric] this] step show ?thesis by simp
  qed
qed

lemma parseString_progress:
  assumes "parseString env p = Inr (u, q)"
  shows "p_start q = p_start p \<and> p_pos p < p_pos q \<and> p_pos p < p_size p"
  using parseStringLoop_progress [of env "b_pos (p_b p)" False 0 "put 0x40 p" u q] assms
  by (simp add: parseString_def Let_def put_def)

lemma parseArray_advances:
  assumes "\<And>p base q. parseArrayLoop env n base p = Inr ((), q) \<Longrightarrow> advances p q"
    and "parseArray env n p = Inr ((), q)"
  shows "advances p q"
  using assms(2)
  by (subst (asm) parseArray.simps)
     (auto simp: Let_def andThen_Inr_iff build_def advances_def
           dest!: skipWhiteSpace_advances assms(1) split: if_splits)

lemma parseObject_advances:
  assumes "\<And>p base i q. parseObjectLoop env n base i p = Inr ((), q) \<Longrightarrow> advances p q"
    and "parseObject env n p = Inr ((), q)"
  shows "advances p q"
  using assms(2)
  by (subst (asm) parseObject.simps)
     (auto simp: Let_def andThen_Inr_iff build_def advances_def consume_def
           dest!: skipWhiteSpace_advances assms(1) split: if_splits)

lemma values_progress:
  "\<forall>p base i q.
     (parseJson env n p = Inr ((), q) \<longrightarrow>
        p_start q = p_start p \<and> p_pos p < p_pos q \<and> p_pos p < p_size p)
     \<and> (parseArrayLoop env n base p = Inr ((), q) \<longrightarrow> advances p q)
     \<and> (parseObjectLoop env n base i p = Inr ((), q) \<longrightarrow> advances p q)"
proof (induction n)
  case 0
  show ?case
    by (simp add: parseJson.simps parseArrayLoop.simps parseObjectLoop.simps)
next
  case (Suc n)
  from Suc have json: "\<And>p q. parseJson env n p = Inr ((), q) \<Longrightarrow>
        p_start q = p_start p \<and> p_pos p < p_pos q"
    and aloop: "\<And>p base q. parseArrayLoop env n base p = Inr ((), q) \<Longrightarrow> advances p q"
    and oloop: "\<And>p base i q. parseObjectLoop env n base i p = Inr ((), q) \<Longrightarrow> advances p q"
    by blast+
  have arrA: "advances p q" if "parseArray env n p = Inr ((), q)" for p q
    using that by (rule parseArray_advances [rotated]) (rule aloop)
  have objA: "advances p q" if "parseObject env n p = Inr ((), q)" for p q
    using that by (rule parseObject_advances [rotated]) (rule oloop)
  show ?case
  proof (intro allI conjI, goal_cases)
    case (1 p base i q)
    show ?case
    proof
    assume "parseJson env (Suc n) p = Inr ((), q)"
    then obtain j p1 where sk: "skipWhiteSpace ''expecting item'' p = Inr (j, p1)"
      and body: "(case consume p1 of (i, p) \<Rightarrow>
       if i < 0 then Inr ((), p)
       else if i = 0x7b then parseObject env n p
       else if i = 0x5b then parseArray env n p
       else if i = 0x74 then parseTrue env p
       else if i = 0x66 then parseFalse env p
       else if i = 0x6e then parseNull env p
       else if i = 0x22 then parseString env p
       else andThen (unconsume p) (\<lambda>_ p. parseNumber env p)) = Inr ((), q)"
      by (subst (asm) parseJson.simps) (auto simp: andThen_Inr_iff)
    from skipWhiteSpace_advances [OF sk] have a1: "advances p p1" and l1: "p_pos p1 < p_size p1"
      by simp_all
    let ?p2 = "p1\<lparr>p_pos := Suc (p_pos p1)\<rparr>"
    from l1 have c: "consume p1 = (uint (p_start p1 ! p_pos p1), ?p2)"
      by (simp add: consume_def)
    have u: "unconsume ?p2 = Inr ((), p1)" by (simp add: unconsume_def)
    have "advances ?p2 q \<or> (p_start q = p_start p1 \<and> p_pos p1 < p_pos q)"
    proof -
      let ?i = "uint (p_start p1 ! p_pos p1)"
      consider (obj) "parseObject env n ?p2 = Inr ((), q)"
        | (arr) "parseArray env n ?p2 = Inr ((), q)"
        | (lit) "parseTrue env ?p2 = Inr ((), q) \<or> parseFalse env ?p2 = Inr ((), q)
                 \<or> parseNull env ?p2 = Inr ((), q)"
        | (str) "parseString env ?p2 = Inr ((), q)"
        | (num) "parseNumber env p1 = Inr ((), q)"
        using body c u by (auto split: if_splits)
      then show ?thesis
      proof cases
        case obj
        from objA [OF this] show ?thesis by simp
      next
        case arr
        from arrA [OF this] show ?thesis by simp
      next
        case lit
        then show ?thesis by (auto dest: literals_advance)
      next
        case str
        from parseString_progress [OF this] show ?thesis by (simp add: advances_def)
      next
        case num
        from parseNumber_progress [OF this] show ?thesis by simp
      qed
    qed
    with a1 l1 show "p_start q = p_start p \<and> p_pos p < p_pos q \<and> p_pos p < p_size p"
      by (auto simp: advances_def)
    qed
  next
    case (2 p base i q)
    show ?case
    proof
      assume "parseArrayLoop env (Suc n) base p = Inr ((), q)"
      then show "advances p q"
        by (subst (asm) parseArrayLoop.simps)
           (auto simp: andThen_Inr_iff build_def advances_def throw_def
                 dest!: skipWhiteSpace_advances json aloop split: if_splits)
    qed
  next
    case (3 p base i q)
    show ?case
    proof
      assume "parseObjectLoop env (Suc n) base i p = Inr ((), q)"
      then show "advances p q"
        by (subst (asm) parseObjectLoop.simps)
           (auto simp: andThen_Inr_iff build_def advances_def throw_def
                 dest!: skipWhiteSpace_advances json oloop parseString_progress
                 split: if_splits)
    qed
  qed
qed

subsection \<open>Values and the top level\<close>

text \<open>
  With \<open>r\<close> bytes left, \<^verbatim>\<open>parseJson\<close> never uses up a fuel above \<open>2 * r\<close>, the two
  loops none above \<open>2 * r + 1\<close>, and the loop of \<^verbatim>\<open>parseInternal\<close> none above \<open>r\<close>.
\<close>

lemma ok_parseArray_step:
  assumes "\<And>q base. hasOptions opts q \<Longrightarrow> 2 * (p_size q - p_pos q) + 1 < n
             \<Longrightarrow> ok opts (parseArrayLoop env n base q)"
    and "hasOptions opts p" and "2 * (p_size p - p_pos p) + 1 < n"
  shows "ok opts (parseArray env n p)"
  using assms(2,3)
  by (subst parseArray.simps)
     (auto intro!: ok_andThen ok_skipWhiteSpace assms(1) dest!: skipWhiteSpace_advances
           simp: Let_def build_def advances_def)

lemma ok_parseObject_step:
  assumes "\<And>q base i. hasOptions opts q \<Longrightarrow> 2 * (p_size q - p_pos q) + 1 < n
             \<Longrightarrow> ok opts (parseObjectLoop env n base i q)"
    and "hasOptions opts p" and "2 * (p_size p - p_pos p) + 1 < n"
  shows "ok opts (parseObject env n p)"
  using assms(2,3)
  by (subst parseObject.simps)
     (auto intro!: ok_andThen ok_skipWhiteSpace assms(1) dest!: skipWhiteSpace_advances
           simp: Let_def build_def advances_def consume_def)

lemma ok_values:
  "\<forall>p base i. hasOptions opts p \<longrightarrow>
     (2 * (p_size p - p_pos p) < n \<longrightarrow> ok opts (parseJson env n p))
     \<and> (2 * (p_size p - p_pos p) + 1 < n \<longrightarrow> ok opts (parseArrayLoop env n base p))
     \<and> (2 * (p_size p - p_pos p) + 1 < n \<longrightarrow> ok opts (parseObjectLoop env n base i p))"
proof (induction n)
  case 0
  show ?case by simp
next
  case (Suc n)
  from Suc have json: "\<And>q. hasOptions opts q \<Longrightarrow> 2 * (p_size q - p_pos q) < n
                         \<Longrightarrow> ok opts (parseJson env n q)"
    and aloop: "\<And>q base. hasOptions opts q \<Longrightarrow> 2 * (p_size q - p_pos q) + 1 < n
                  \<Longrightarrow> ok opts (parseArrayLoop env n base q)"
    and oloop: "\<And>q base i. hasOptions opts q \<Longrightarrow> 2 * (p_size q - p_pos q) + 1 < n
                  \<Longrightarrow> ok opts (parseObjectLoop env n base i q)"
    by blast+
  note arr = ok_parseArray_step [of opts n env, OF aloop]
  note obj = ok_parseObject_step [of opts n env, OF oloop]
  from values_progress [of env n]
  have jsonP: "p_start q = p_start p \<and> p_pos p < p_pos q \<and> p_pos p < p_size p"
    if "parseJson env n p = Inr ((), q)" for p q
    using that by blast
  show ?case
  proof (intro allI impI conjI, goal_cases)
    case (1 p base i)
    then show ?case
      by (subst parseJson.simps)
         (auto intro!: ok_andThen ok_skipWhiteSpace arr obj ok_literals ok_parseString
                 ok_parseNumber
               dest!: skipWhiteSpace_advances
               simp: consume_def advances_def split: if_splits)
  next
    case (2 p base i)
    then show ?case
      by (subst parseArrayLoop.simps)
         (auto intro!: ok_andThen ok_skipWhiteSpace json aloop
               dest!: skipWhiteSpace_advances jsonP simp: build_def advances_def)
  next
    case (3 p base i)
    then show ?case
      apply (subst parseObjectLoop.simps)
      apply (auto intro!: ok_andThen ok_skipWhiteSpace json oloop ok_parseString
               dest!: skipWhiteSpace_advances jsonP parseString_progress
               simp: build_def advances_def)
       apply arith+
      done
  qed
qed

lemma options_skipTrailing [simp]: "hasOptions opts (skipTrailing p) = hasOptions opts p"
proof (induction p rule: skipTrailing.induct)
  case (1 p)
  then show ?case by (subst skipTrailing.simps) simp
qed

lemma skipTrailing_advances: "advances p (skipTrailing p)"
proof (induction p rule: skipTrailing.induct)
  case (1 p)
  then show ?case by (subst skipTrailing.simps) (auto simp: advances_def)
qed

lemma ok_parseInternalLoop:
  assumes "hasOptions opts p" and "2 * (p_size p - p_pos p) < vfuel"
    and "p_size p - p_pos p < fuel"
  shows "ok opts (parseInternalLoop env multi vfuel fuel nr p)"
  using assms
proof (induction fuel arbitrary: nr p multi)
  case 0
  then show ?case by simp
next
  case (Suc fuel)
  from ok_values [where opts = opts and env = env and n = vfuel] Suc.prems
  have j: "ok opts (parseJson env vfuel p)" by blast
  show ?case
  proof (subst parseInternalLoop.simps, rule ok_andThen [OF j], goal_cases)
    case (1 x q)
    with values_progress [of env vfuel]
    have pr: "p_start q = p_start p \<and> p_pos p < p_pos q \<and> p_pos p < p_size p"
      by (cases x) blast
    from skipTrailing_advances [of q]
    have st: "p_start (skipTrailing q) = p_start q \<and> p_pos q \<le> p_pos (skipTrailing q)"
      by (simp add: advances_def)
    have "ok opts (parseInternalLoop env multi vfuel fuel (nr + 1) (skipTrailing q))"
      if "p_pos (skipTrailing q) < p_size (skipTrailing q)"
      using that pr st 1 Suc.prems by (intro Suc.IH) auto
    with 1 show ?case
      by (auto simp: Let_def consume_def)
  qed
qed

lemma ok_parse: "ok (options p) (parse env json multi p)"
  by (simp add: parse_def parseInternal_def Let_def ok_parseInternalLoop hasOptions_def)

lemma parse_enough_fuel: "parse env json multi p \<noteq> Inl (FuelExhausted, p')"
  using ok_parse [of p env json multi] by (auto simp: ok_def)

text \<open>
  C8. \<^verbatim>\<open>unconsume\<close> is only ever called on a parser that has just read a byte: an
  \<^verbatim>\<open>unconsume\<close> right after a \<^verbatim>\<open>consume\<close> or \<^verbatim>\<open>getOneOrThrow\<close> that returned a byte
  puts the parser back as it was. In the model an \<^verbatim>\<open>unconsume\<close> at position 0 throws
  \<open>CursorUnderflow\<close>, and nothing catches it; no parse ends with it. Nor does a parse
  end for lack of fuel, so the runs of the model are all the runs of the code.
\<close>

theorem unconsume_never_underflows:
  "((\<exists>q'. unconsume q = Inl (CursorUnderflow, q')) \<longleftrightarrow> p_pos q = 0)
   \<and> (consume p = (i, q) \<and> 0 \<le> i \<longrightarrow> unconsume q = Inr ((), p))
   \<and> (getOneOrThrow msg p = Inr (i, q) \<longrightarrow> unconsume q = Inr ((), p))
   \<and> (\<forall>p'. parse env json multi r \<noteq> Inl (CursorUnderflow, p')
           \<and> parse env json multi r \<noteq> Inl (FuelExhausted, p'))"
proof (intro conjI impI allI)
  show "(\<exists>q'. unconsume q = Inl (CursorUnderflow, q')) \<longleftrightarrow> p_pos q = 0"
    by (auto simp: unconsume_def)
  show "unconsume q = Inr ((), p)" if "consume p = (i, q) \<and> 0 \<le> i"
    using that by (auto intro: consume_unconsume)
  show "unconsume q = Inr ((), p)" if "getOneOrThrow msg p = Inr (i, q)"
    using that by (rule getOneOrThrow_unconsume)
  show "parse env json multi r \<noteq> Inl (CursorUnderflow, p')" for p'
    using ok_parse [of r env json multi] by (auto simp: ok_def)
  show "parse env json multi r \<noteq> Inl (FuelExhausted, p')" for p'
    by (rule parse_enough_fuel)
qed

theorem unconsume_never_underflows_witness:
  "consume (newParser\<lparr>p_start := bytes_of ''7''\<rparr>)
     = (55, newParser\<lparr>p_start := bytes_of ''7'', p_pos := 1\<rparr>)
   \<and> unconsume (newParser\<lparr>p_start := bytes_of ''7'', p_pos := 1\<rparr>)
     = Inr ((), newParser\<lparr>p_start := bytes_of ''7''\<rparr>)
   \<and> parse (demoEnv False) (bytes_of ''-12.5e3 '') False newParser
     \<noteq> Inl (CursorUnderflow, newParser)
   \<and> parse (demoEnv False) (bytes_of ''-12.5e3 '') False newParser
     \<noteq> Inl (FuelExhausted, newParser)"
proof -
  have c: "consume (newParser\<lparr>p_start := bytes_of ''7''\<rparr>)
     = (55, newParser\<lparr>p_start := bytes_of ''7'', p_pos := 1\<rparr>)"
    by (simp add: consume_def newParser_def bytes_of_def)
  from unconsume_never_underflows
         [of "newParser\<lparr>p_start := bytes_of ''7'', p_pos := 1\<rparr>"
             "newParser\<lparr>p_start := bytes_of ''7''\<rparr>" 55 "''''" "demoEnv False"
             "bytes_of ''-12.5e3 ''" False newParser] c
  show ?thesis by simp
qed

lemma parse_same_options:
  assumes "options p1 = options p2"
  shows "parse env json multi p1 = parse env json multi p2"
proof -
  obtain b1 s1 n1 o1 where p1: "p1 = \<lparr>p_b = b1, p_start = s1, p_pos = n1, options = o1\<rparr>"
    by (cases p1)
  obtain b2 s2 n2 o2 where p2: "p2 = \<lparr>p_b = b2, p_start = s2, p_pos = n2, options = o2\<rparr>"
    by (cases p2)
  obtain x1 y1 z1 where b1: "b1 = \<lparr>b_start = x1, b_options = y1, b_rest = z1\<rparr>"
    by (cases b1)
  obtain x2 y2 z2 where b2: "b2 = \<lparr>b_start = x2, b_options = y2, b_rest = z2\<rparr>"
    by (cases b2)
  from assms show ?thesis
    by (simp add: p1 p2 b1 b2 parse_def parseInternal_def clear_def Let_def)
qed

text \<open>
  C9. \<^verbatim>\<open>parse\<close> overwrites the input, the read position and, through \<^verbatim>\<open>clear\<close> and the
  copy of the options, the builder; of the parser it is called on only the options
  matter. No call changes the options. So what a parse does is the same after any
  earlier parse, whether that one returned or threw.
\<close>

theorem parse_depends_on_options_only:
  "(options p1 = options p2 \<longrightarrow> parse env json multi p1 = parse env json multi p2)
   \<and> options (parserAfter (parse env json0 multi0 p)) = options p
   \<and> parse env json multi (parserAfter (parse env json0 multi0 p)) = parse env json multi p"
proof -
  note eq = parse_same_options
  have opt: "options (parserAfter (parse env json0 multi0 p)) = options p"
    using ok_parse [of p env json0 multi0]
    by (auto simp: ok_def parserAfter_def hasOptions_def split: sum.splits)
  from eq [OF opt] eq [of p1 p2] opt show ?thesis by blast
qed

theorem parse_depends_on_options_only_witness:
  "outcome (parse (demoEnv False) (bytes_of ''1e2'') False newParser)
     = Inl (JasonParserError ''expecting EOF'', 1)
   \<and> outcome (parse (demoEnv False) (bytes_of ''[7]'') False
        (parserAfter (parse (demoEnv False) (bytes_of ''1e2'') False newParser)))
     = Inr (1, \<lparr>b_start = [], b_options = (), b_rest = [AddArray, ReportAdd 0, AddUInt 7, Close]\<rparr>)"
proof -
  have "outcome (parse (demoEnv False) (bytes_of ''[7]'') False newParser)
     = Inr (1, \<lparr>b_start = [], b_options = (), b_rest = [AddArray, ReportAdd 0, AddUInt 7, Close]\<rparr>)"
    by (simp add: run_top run_number run_demo)
  moreover have "outcome (parse (demoEnv False) (bytes_of ''1e2'') False newParser)
     = Inl (JasonParserError ''expecting EOF'', 1)"
    by (simp add: run_top run_number run_demo)
  ultimately show ?thesis
    using parse_depends_on_options_only
            [of newParser newParser "demoEnv False" "bytes_of ''[7]''" False
                "bytes_of ''1e2''" False newParser]
    by simp
qed




section \<open>The layout of a string value\<close>








lemma writes_refl [simp]: "writes p p"
  by (simp add: writes_def)



lemma app_Nil_refl [simp]: "app [] p p"
  by (simp add: app_def)




lemma app_pos [simp]: "app xs p (q\<lparr>p_pos := n\<rparr>) = app xs p q"
  by (simp add: app_def writes_def)





















section \<open>Strings of plain bytes\<close>



















end
